theory Spec2Isabelle
  imports
    Complex_Main
    "HOL-Library.Multiset"
    "HOL-Library.Char_ord"
    "HOL-Library.List_Lexorder"
begin

section \<open>JavaScript primitives used by the explorer\<close>

text \<open>
  Strings are \<^typ>\<open>string\<close>. The comparison \<^verbatim>\<open>a > b\<close> of two JavaScript strings is the
  lexicographic order of their code units; the order of \<^verbatim>\<open>List_Lexorder\<close> over that of
  \<^verbatim>\<open>Char_ord\<close> is this order on \<^typ>\<open>string\<close> (the strings compared in
  \<^verbatim>\<open>s3.server.ts\<close> are ISO-8601 timestamps, which are ASCII).
\<close>

definition js_gt :: "string \<Rightarrow> string \<Rightarrow> bool" where
  "js_gt a b = (b < a)"

text \<open>\<^verbatim>\<open>Boolean(s)\<close> and \<^verbatim>\<open>!s\<close> on an optional string: \<^verbatim>\<open>undefined\<close> and \<^verbatim>\<open>''\<close> are falsy.\<close>

definition truthy :: "string option \<Rightarrow> bool" where
  "truthy s = (case s of None \<Rightarrow> False | Some v \<Rightarrow> v \<noteq> [])"

text \<open>\<^verbatim>\<open>s.replace(/^\/+/, '')\<close>: every leading slash is removed.\<close>

definition replaceLeadingSlashes :: "string \<Rightarrow> string" where
  "replaceLeadingSlashes s = dropWhile (\<lambda>c. c = CHR ''/'') s"

text \<open>\<^verbatim>\<open>s.endsWith('/')\<close>.\<close>

definition endsWithSlash :: "string \<Rightarrow> bool" where
  "endsWithSlash s = (s \<noteq> [] \<and> last s = CHR ''/'')"

text \<open>\<^verbatim>\<open>s.startsWith(p)\<close>.\<close>

definition startsWith :: "string \<Rightarrow> string \<Rightarrow> bool" where
  "startsWith s p = (take (length p) s = p)"

text \<open>
  \<^verbatim>\<open>s.replace(pat, '')\<close> with a string pattern: the leftmost occurrence of \<^verbatim>\<open>pat\<close> in
  \<^verbatim>\<open>s\<close> is removed, wherever it is; a string without an occurrence is returned as it is. The
  empty pattern occurs at position 0. (The replacement is always \<^verbatim>\<open>''\<close> in the source, so
  the \<^verbatim>\<open>$\<close> patterns of a replacement string never arise.)
\<close>

fun replaceFirst :: "string \<Rightarrow> string \<Rightarrow> string" where
  "replaceFirst pat [] = []"
| "replaceFirst pat (c # cs) =
     (if startsWith (c # cs) pat then drop (length pat) (c # cs)
      else c # replaceFirst pat cs)"

text \<open>\<^verbatim>\<open>s.replace(/\/$/, '')\<close>: one slash at the very end of the string is removed.\<close>

definition replaceTrailingSlash :: "string \<Rightarrow> string" where
  "replaceTrailingSlash s = (if endsWithSlash s then butlast s else s)"

text \<open>
  \<^verbatim>\<open>xs.slice(start, end)\<close> with integer arguments: a negative index counts from the end, both
  indices are clamped to the array, and an empty range gives the empty array.
\<close>

definition slice :: "'a list \<Rightarrow> int \<Rightarrow> int \<Rightarrow> 'a list" where
  "slice xs start end' =
     (let len = int (length xs);
          k = (if start < 0 then max (len + start) 0 else min start len);
          final = (if end' < 0 then max (len + end') 0 else min end' len)
      in take (nat (final - k)) (drop (nat k) xs))"

text \<open>
  \<^verbatim>\<open>xs.sort(comparefn)\<close>. The sort of ECMAScript is stable, and the engine of the deployed
  image (Node 22) decides every step by the test \<^verbatim>\<open>comparefn(later, earlier) < 0\<close>: it inserts
  each element, from left to right, into the sorted run before it, behind every element
  that it is not strictly smaller than. For a comparator whose negative results form a strict
  weak order every stable sort returns this list.
\<close>

fun sortInsert :: "('a \<Rightarrow> 'a \<Rightarrow> int) \<Rightarrow> 'a \<Rightarrow> 'a list \<Rightarrow> 'a list" where
  "sortInsert comparefn x [] = [x]"
| "sortInsert comparefn x (e # es) =
     (if comparefn x e < 0 then x # e # es else e # sortInsert comparefn x es)"

definition sort' :: "('a \<Rightarrow> 'a \<Rightarrow> int) \<Rightarrow> 'a list \<Rightarrow> 'a list" where
  "sort' comparefn xs = foldl (\<lambda>run x. sortInsert comparefn x run) [] xs"

text \<open>
  \<^verbatim>\<open>Math.ceil(a / b)\<close> for an array length \<^verbatim>\<open>a\<close> and an integer \<^verbatim>\<open>b\<close> from 1 to 50: the
  quotient of two such doubles is an integer exactly when \<^verbatim>\<open>b\<close> divides \<^verbatim>\<open>a\<close>, and is
  otherwise at least 1/50 away from one, so the rounding of the division never changes the
  ceiling and the real quotient stands for the double.
\<close>

definition ceilDiv :: "nat \<Rightarrow> int \<Rightarrow> int" where
  "ceilDiv a b = \<lceil>real a / real_of_int b\<rceil>"

section \<open>Data model\<close>

text \<open>
  The SDK's \<^verbatim>\<open>_Object\<close>, every field optional. \<^verbatim>\<open>LastModified\<close> is a \<^verbatim>\<open>Date\<close>; the SDK builds
  it from a time stamp it has parsed, so it is a valid time value: milliseconds since the epoch.
\<close>

type_synonym js_date = int

record s3_object =
  Key :: "string option"
  Size :: "int option"
  LastModified :: "js_date option"
  ETag :: "string option"

text \<open>\<^verbatim>\<open>ObjectSummary\<close> of \<^verbatim>\<open>types.ts\<close>; \<^verbatim>\<open>size\<close> is written \<open>size'\<close>.\<close>

record object_summary =
  key :: string
  size' :: int
  lastModified :: "string option"
  etag :: "string option"

text \<open>\<^verbatim>\<open>FolderSummary\<close> of \<^verbatim>\<open>types.ts\<close>; \<^verbatim>\<open>prefix\<close> is written \<open>prefix'\<close>.\<close>

record folder_summary =
  name :: string
  prefix' :: string

text \<open>One entry of \<^verbatim>\<open>pagination\<close> in the result of \<^verbatim>\<open>listObjectsPaginated\<close>.\<close>

record page_meta =
  currentPage :: int
  totalPages :: int
  totalItems :: nat
  metaItemsPerPage :: int
  hasNextPage :: bool
  hasPrevPage :: bool

record pagination =
  pgFolders :: page_meta
  pgFiles :: page_meta

record paginated_response =
  resPrefix :: string
  objects :: "object_summary list"
  folders :: "folder_summary list"
  pagination :: pagination
  isTruncated :: bool
  nextCursor :: "string option"

text \<open>\<^verbatim>\<open>ExplorerResponse\<close>, the result of \<^verbatim>\<open>listObjects\<close>.\<close>

record explorer_response =
  exPrefix :: string
  exObjects :: "object_summary list"
  exFolders :: "folder_summary list"
  exIsTruncated :: bool
  exNextCursor :: "string option"

text \<open>\<^verbatim>\<open>ObjectAccess\<close> of \<^verbatim>\<open>types.ts\<close>, with \<^verbatim>\<open>key\<close> and \<^verbatim>\<open>lastModified\<close> renamed.\<close>

record object_access =
  accessKey :: string
  signedUrl :: string
  contentType :: string
  contentLength :: int
  accessLastModified :: "string option"

section \<open>Helpers of s3.server.ts\<close>

definition normalizePrefix :: "string option \<Rightarrow> string" where
  "normalizePrefix prefix =
     (if \<not> truthy prefix then []
      else let trimmed = replaceLeadingSlashes (the prefix)
           in if endsWithSlash trimmed then trimmed else trimmed @ ''/'')"

definition safeMapObjects ::
  "(js_date \<Rightarrow> string) \<Rightarrow> s3_object list option \<Rightarrow> object_summary list" where
  "safeMapObjects toISOString contents =
     map (\<lambda>object. \<lparr> key = the (Key object),
                     size' = (case Size object of None \<Rightarrow> 0 | Some n \<Rightarrow> n),
                     lastModified = map_option toISOString (LastModified object),
                     etag = ETag object \<rparr>)
       (filter (\<lambda>object. truthy (Key object))
          (case contents of None \<Rightarrow> [] | Some objs \<Rightarrow> objs))"

section \<open>Request validation\<close>

text \<open>
  The input of a server function is \<^verbatim>\<open>unknown\<close>: any JavaScript value. Finite numbers are
  rationals (every finite double is one).
\<close>

datatype js_value =
    JUndefined
  | JNull
  | JBoolean bool
  | JNumber rat
  | JNaN
  | JInfinity bool
  | JString string
  | JArray "js_value list"
  | JObject "(string \<times> js_value) list"

text \<open>Reading a property of an object: a missing property is \<^verbatim>\<open>undefined\<close>.\<close>

definition getProp :: "(string \<times> js_value) list \<Rightarrow> string \<Rightarrow> js_value" where
  "getProp props k = (case map_of props k of None \<Rightarrow> JUndefined | Some v \<Rightarrow> v)"

text \<open>An issue of a \<^verbatim>\<open>ZodError\<close>: the path of the field and the code of the violated check.\<close>

datatype zod_issue = Issue string string

text \<open>\<^verbatim>\<open>z.string().optional()\<close>.\<close>

definition parseOptionalString :: "string \<Rightarrow> js_value \<Rightarrow> zod_issue list + string option" where
  "parseOptionalString path v =
     (case v of JUndefined \<Rightarrow> Inr None
              | JString s \<Rightarrow> Inr (Some s)
              | _ \<Rightarrow> Inl [Issue path ''invalid_type''])"

text \<open>
  The checks \<^verbatim>\<open>.int()\<close>, \<^verbatim>\<open>.positive()\<close> and \<^verbatim>\<open>.max(m)\<close> of a \<^verbatim>\<open>z.number()\<close>; every check runs
  and every failed one adds its issue. \<^verbatim>\<open>.int()\<close> is \<^verbatim>\<open>Number.isInteger\<close>.
\<close>

definition isInteger :: "rat \<Rightarrow> bool" where
  "isInteger r = (of_int \<lfloor>r\<rfloor> = r)"

definition numberChecks :: "string \<Rightarrow> int option \<Rightarrow> rat \<Rightarrow> zod_issue list" where
  "numberChecks path maxValue r =
     (if isInteger r then [] else [Issue path ''invalid_type''])
     @ (if 0 < r then [] else [Issue path ''too_small''])
     @ (case maxValue of None \<Rightarrow> []
        | Some m \<Rightarrow> if r \<le> of_int m then [] else [Issue path ''too_big''])"

text \<open>
  \<^verbatim>\<open>z.number().int().positive()[.max(m)].default(d)\<close>: \<^verbatim>\<open>undefined\<close> takes the default, a value
  that is not a number (or is \<^verbatim>\<open>NaN\<close>) is an \<^verbatim>\<open>invalid_type\<close>, an infinity is not an integer.
\<close>

definition parseIntField ::
  "string \<Rightarrow> int option \<Rightarrow> int \<Rightarrow> js_value \<Rightarrow> zod_issue list + int" where
  "parseIntField path maxValue dflt v =
     (case v of
        JUndefined \<Rightarrow> Inr dflt
      | JNumber r \<Rightarrow>
          (case numberChecks path maxValue r of [] \<Rightarrow> Inr \<lfloor>r\<rfloor> | issues \<Rightarrow> Inl issues)
      | JInfinity positive \<Rightarrow>
          Inl ([Issue path ''invalid_type'']
               @ (if positive then [] else [Issue path ''too_small''])
               @ (if positive \<and> maxValue \<noteq> None then [Issue path ''too_big''] else []))
      | _ \<Rightarrow> Inl [Issue path ''invalid_type''])"

definition issuesOf :: "zod_issue list + 'a \<Rightarrow> zod_issue list" where
  "issuesOf r = (case r of Inl issues \<Rightarrow> issues | Inr _ \<Rightarrow> [])"

record list_request =
  lrPrefix :: "string option"
  limit :: int
  cursor :: "string option"

definition listRequestSchema :: "js_value \<Rightarrow> zod_issue list + list_request" where
  "listRequestSchema input =
     (case input of
        JObject props \<Rightarrow>
          (let p = parseOptionalString ''prefix'' (getProp props ''prefix'');
               l = parseIntField ''limit'' (Some 200) 50 (getProp props ''limit'');
               c = parseOptionalString ''cursor'' (getProp props ''cursor'')
           in case (p, l, c) of
                (Inr p', Inr l', Inr c') \<Rightarrow>
                  Inr \<lparr> lrPrefix = p', limit = l', cursor = c' \<rparr>
              | _ \<Rightarrow> Inl (issuesOf p @ issuesOf l @ issuesOf c))
      | _ \<Rightarrow> Inl [Issue [] ''invalid_type''])"

record paginated_request =
  prPrefix :: "string option"
  foldersPage :: int
  filesPage :: int
  itemsPerPage :: int

definition paginatedListSchema :: "js_value \<Rightarrow> zod_issue list + paginated_request" where
  "paginatedListSchema input =
     (case input of
        JObject props \<Rightarrow>
          (let p = parseOptionalString ''prefix'' (getProp props ''prefix'');
               fo = parseIntField ''foldersPage'' None 1 (getProp props ''foldersPage'');
               fi = parseIntField ''filesPage'' None 1 (getProp props ''filesPage'');
               ip = parseIntField ''itemsPerPage'' (Some 50) 10 (getProp props ''itemsPerPage'')
           in case (p, fo, fi, ip) of
                (Inr p', Inr fo', Inr fi', Inr ip') \<Rightarrow>
                  Inr \<lparr> prPrefix = p', foldersPage = fo', filesPage = fi', itemsPerPage = ip' \<rparr>
              | _ \<Rightarrow> Inl (issuesOf p @ issuesOf fo @ issuesOf fi @ issuesOf ip))
      | _ \<Rightarrow> Inl [Issue [] ''invalid_type''])"

datatype disposition = Inline | Attachment

record access_request =
  arKey :: string
  arDisposition :: disposition

text \<open>\<^verbatim>\<open>z.string().min(1)\<close> and \<^verbatim>\<open>z.enum(['inline', 'attachment']).default('inline')\<close>.\<close>

definition parseKey :: "js_value \<Rightarrow> zod_issue list + string" where
  "parseKey v =
     (case v of
        JString s \<Rightarrow> if 1 \<le> length s then Inr s else Inl [Issue ''key'' ''too_small'']
      | _ \<Rightarrow> Inl [Issue ''key'' ''invalid_type''])"

definition parseDisposition :: "js_value \<Rightarrow> zod_issue list + disposition" where
  "parseDisposition v =
     (case v of
        JUndefined \<Rightarrow> Inr Inline
      | JString s \<Rightarrow>
          if s = ''inline'' then Inr Inline
          else if s = ''attachment'' then Inr Attachment
          else Inl [Issue ''disposition'' ''invalid_enum_value'']
      | _ \<Rightarrow> Inl [Issue ''disposition'' ''invalid_type''])"

definition objectAccessSchema :: "js_value \<Rightarrow> zod_issue list + access_request" where
  "objectAccessSchema input =
     (case input of
        JObject props \<Rightarrow>
          (let k = parseKey (getProp props ''key'');
               d = parseDisposition (getProp props ''disposition'')
           in case (k, d) of
                (Inr k', Inr d') \<Rightarrow> Inr \<lparr> arKey = k', arDisposition = d' \<rparr>
              | _ \<Rightarrow> Inl (issuesOf k @ issuesOf d))
      | _ \<Rightarrow> Inl [Issue [] ''invalid_type''])"

section \<open>The storage service\<close>

text \<open>
  The three operations of the SDK that \<^verbatim>\<open>s3.server.ts\<close> uses, with the commands it builds
  and the outputs it reads. Every field of an output is optional, as in the SDK's types.
\<close>

record list_command =
  lcBucket :: string
  lcPrefix :: "string option"
  lcDelimiter :: string
  lcContinuationToken :: "string option"
  lcMaxKeys :: int

record common_prefix =
  Prefix :: "string option"

record list_output =
  Contents :: "s3_object list option"
  CommonPrefixes :: "common_prefix list option"
  IsTruncated :: "bool option"
  NextContinuationToken :: "string option"

record head_command =
  hcBucket :: string
  hcKey :: string

record head_output =
  ContentType :: "string option"
  ContentLength :: "int option"
  headLastModified :: "js_date option"

record get_command =
  gcBucket :: string
  gcKey :: string
  ResponseContentDisposition :: "string option"
  ResponseContentType :: "string option"

text \<open>A failed call throws; the exception is a value.\<close>

datatype s3_error = S3Error string

text \<open>
  What a handler runs in: the bucket of the environment, the storage client, the presigner
  (with its \<^verbatim>\<open>expiresIn\<close>), and the two functions of the JavaScript runtime whose results
  depend on the platform: \<^verbatim>\<open>Date.prototype.toISOString\<close> and
  \<^verbatim>\<open>String.prototype.localeCompare\<close> (a collation of the host's locale).
\<close>

record world =
  S3_BUCKET :: string
  sendList :: "list_command \<Rightarrow> s3_error + list_output"
  sendHead :: "head_command \<Rightarrow> s3_error + head_output"
  getSignedUrl :: "get_command \<Rightarrow> int \<Rightarrow> s3_error + string"
  toISOString :: "js_date \<Rightarrow> string"
  localeCompare :: "string \<Rightarrow> string \<Rightarrow> int"

text \<open>The calls a handler has issued, in order.\<close>

datatype s3_call =
    SendList list_command
  | SendHead head_command
  | GetSignedUrl get_command int

datatype server_error =
    ValidationError "zod_issue list"
  | StorageError s3_error

text \<open>
  \<^verbatim>\<open>createServerFn().inputValidator(v).handler(h)\<close>: the validator runs on the input; when it
  throws, the handler does not run.
\<close>

definition createServerFn ::
  "(js_value \<Rightarrow> zod_issue list + 'd) \<Rightarrow> ('d \<Rightarrow> s3_call list \<times> (server_error + 'r))
     \<Rightarrow> js_value \<Rightarrow> s3_call list \<times> (server_error + 'r)" where
  "createServerFn inputValidator handler input =
     (case inputValidator input of
        Inl issues \<Rightarrow> ([], Inl (ValidationError issues))
      | Inr data \<Rightarrow> handler data)"

section \<open>Listing\<close>

text \<open>The comparator of both listings.\<close>

definition compareLastModified :: "object_summary \<Rightarrow> object_summary \<Rightarrow> int" where
  "compareLastModified a b =
     (if \<not> truthy (lastModified a) \<and> \<not> truthy (lastModified b) then 0
      else if \<not> truthy (lastModified a) then 1
      else if \<not> truthy (lastModified b) then - 1
      else if js_gt (the (lastModified a)) (the (lastModified b)) then - 1 else 1)"

text \<open>The folders of a response, before sorting (the same expression in both listings).\<close>

definition mapFolders :: "string \<Rightarrow> common_prefix list option \<Rightarrow> folder_summary list" where
  "mapFolders prefix commonPrefixes =
     map (\<lambda>n. \<lparr> name = replaceTrailingSlash n, prefix' = prefix @ n \<rparr>)
       (filter (\<lambda>n. n \<noteq> [] \<and> n \<noteq> prefix)
          (map (\<lambda>entry. case Prefix entry of None \<Rightarrow> [] | Some p \<Rightarrow> replaceFirst prefix p)
             (case commonPrefixes of None \<Rightarrow> [] | Some entries \<Rightarrow> entries)))"

definition listCommand :: "world \<Rightarrow> list_request \<Rightarrow> string \<Rightarrow> list_command" where
  "listCommand w data prefix =
     \<lparr> lcBucket = S3_BUCKET w,
       lcPrefix = (if prefix = [] then None else Some prefix),
       lcDelimiter = ''/'',
       lcContinuationToken = cursor data,
       lcMaxKeys = limit data \<rparr>"

definition listObjectsHandler ::
  "world \<Rightarrow> list_request \<Rightarrow> s3_call list \<times> (server_error + explorer_response)" where
  "listObjectsHandler w data =
     (let prefix = normalizePrefix (lrPrefix data);
          command = listCommand w data prefix
      in case sendList w command of
           Inl e \<Rightarrow> ([SendList command], Inl (StorageError e))
         | Inr response \<Rightarrow>
             ([SendList command],
              Inr \<lparr> exPrefix = prefix,
                    exObjects =
                      slice (sort' compareLastModified
                               (safeMapObjects (toISOString w) (Contents response)))
                        0 (limit data),
                    exFolders = mapFolders prefix (CommonPrefixes response),
                    exIsTruncated = (IsTruncated response = Some True),
                    exNextCursor = NextContinuationToken response \<rparr>))"

definition listObjects ::
  "world \<Rightarrow> js_value \<Rightarrow> s3_call list \<times> (server_error + explorer_response)" where
  "listObjects w = createServerFn listRequestSchema (listObjectsHandler w)"

text \<open>The command of \<^verbatim>\<open>listObjectsPaginated\<close> for a normalised prefix.\<close>

definition paginatedListCommand :: "world \<Rightarrow> string \<Rightarrow> list_command" where
  "paginatedListCommand w prefix =
     \<lparr> lcBucket = S3_BUCKET w,
       lcPrefix = (if prefix = [] then None else Some prefix),
       lcDelimiter = ''/'',
       lcContinuationToken = None,
       lcMaxKeys = 1000 \<rparr>"

text \<open>\<^verbatim>\<open>allObjects\<close> and \<^verbatim>\<open>allFolders\<close> of \<^verbatim>\<open>listObjectsPaginated\<close>.\<close>

definition allObjects :: "world \<Rightarrow> list_output \<Rightarrow> object_summary list" where
  "allObjects w response =
     sort' compareLastModified (safeMapObjects (toISOString w) (Contents response))"

definition allFolders :: "world \<Rightarrow> string \<Rightarrow> list_output \<Rightarrow> folder_summary list" where
  "allFolders w prefix response =
     sort' (\<lambda>a b. localeCompare w (name a) (name b))
       (mapFolders prefix (CommonPrefixes response))"

text \<open>
  What \<^verbatim>\<open>listObjectsPaginated\<close> computes from the response of the store. The page numbers
  and the page size are integers; where the doubles of the source would round (a page number
  beyond \<open>2\<^sup>5\<^sup>3\<close>), the start index is far beyond any list in either arithmetic and the
  page is empty in both.
\<close>

definition paginatedResult ::
  "world \<Rightarrow> paginated_request \<Rightarrow> string \<Rightarrow> list_output \<Rightarrow> paginated_response" where
  "paginatedResult w data prefix response =
     (let allObjs = allObjects w response;
          allFlds = allFolders w prefix response;
          foldersStartIndex = (foldersPage data - 1) * itemsPerPage data;
          foldersEndIndex = foldersStartIndex + itemsPerPage data;
          paginatedFolders = slice allFlds foldersStartIndex foldersEndIndex;
          totalFoldersPages = ceilDiv (length allFlds) (itemsPerPage data);
          filesStartIndex = (filesPage data - 1) * itemsPerPage data;
          filesEndIndex = filesStartIndex + itemsPerPage data;
          paginatedObjects = slice allObjs filesStartIndex filesEndIndex;
          totalFilesPages = ceilDiv (length allObjs) (itemsPerPage data)
      in \<lparr> resPrefix = prefix,
           objects = paginatedObjects,
           folders = paginatedFolders,
           pagination =
             \<lparr> pgFolders =
                 \<lparr> currentPage = foldersPage data,
                   totalPages = totalFoldersPages,
                   totalItems = length allFlds,
                   metaItemsPerPage = itemsPerPage data,
                   hasNextPage = (foldersPage data < totalFoldersPages),
                   hasPrevPage = (foldersPage data > 1) \<rparr>,
               pgFiles =
                 \<lparr> currentPage = filesPage data,
                   totalPages = totalFilesPages,
                   totalItems = length allObjs,
                   metaItemsPerPage = itemsPerPage data,
                   hasNextPage = (filesPage data < totalFilesPages),
                   hasPrevPage = (filesPage data > 1) \<rparr> \<rparr>,
           isTruncated = (IsTruncated response = Some True),
           nextCursor = NextContinuationToken response \<rparr>)"

definition listObjectsPaginatedHandler ::
  "world \<Rightarrow> paginated_request \<Rightarrow> s3_call list \<times> (server_error + paginated_response)" where
  "listObjectsPaginatedHandler w data =
     (let prefix = normalizePrefix (prPrefix data);
          command = paginatedListCommand w prefix
      in case sendList w command of
           Inl e \<Rightarrow> ([SendList command], Inl (StorageError e))
         | Inr response \<Rightarrow>
             ([SendList command], Inr (paginatedResult w data prefix response)))"

definition listObjectsPaginated ::
  "world \<Rightarrow> js_value \<Rightarrow> s3_call list \<times> (server_error + paginated_response)" where
  "listObjectsPaginated w = createServerFn paginatedListSchema (listObjectsPaginatedHandler w)"

text \<open>
  Page \<open>q\<close> of the files, and page \<open>p\<close> of the folders, of a request: what the handler
  returns as \<^verbatim>\<open>objects\<close> and \<^verbatim>\<open>folders\<close> when the request asks for that page.
\<close>

definition filesPageOf :: "world \<Rightarrow> paginated_request \<Rightarrow> int \<Rightarrow> object_summary list" where
  "filesPageOf w data q =
     (case snd (listObjectsPaginatedHandler w (data\<lparr> filesPage := q \<rparr>)) of
        Inl e \<Rightarrow> [] | Inr r \<Rightarrow> objects r)"

definition foldersPageOf :: "world \<Rightarrow> paginated_request \<Rightarrow> int \<Rightarrow> folder_summary list" where
  "foldersPageOf w data p =
     (case snd (listObjectsPaginatedHandler w (data\<lparr> foldersPage := p \<rparr>)) of
        Inl e \<Rightarrow> [] | Inr r \<Rightarrow> folders r)"

section \<open>Access\<close>

definition getObjectAccessHandler ::
  "world \<Rightarrow> access_request \<Rightarrow> s3_call list \<times> (server_error + object_access)" where
  "getObjectAccessHandler w data =
     (let headCommand = \<lparr> hcBucket = S3_BUCKET w, hcKey = arKey data \<rparr>
      in case sendHead w headCommand of
           Inl e \<Rightarrow> ([SendHead headCommand], Inl (StorageError e))
         | Inr head \<Rightarrow>
             (let getCommand =
                    \<lparr> gcBucket = S3_BUCKET w,
                      gcKey = arKey data,
                      ResponseContentDisposition =
                        Some (if arDisposition data = Attachment then ''attachment''
                              else ''inline''),
                      ResponseContentType = ContentType head \<rparr>
              in case getSignedUrl w getCommand 300 of
                   Inl e \<Rightarrow>
                     ([SendHead headCommand, GetSignedUrl getCommand 300],
                      Inl (StorageError e))
                 | Inr url \<Rightarrow>
                     ([SendHead headCommand, GetSignedUrl getCommand 300],
                      Inr \<lparr> accessKey = arKey data,
                            signedUrl = url,
                            contentType =
                              (case ContentType head of
                                 None \<Rightarrow> ''application/octet-stream'' | Some t \<Rightarrow> t),
                            contentLength =
                              (case ContentLength head of None \<Rightarrow> 0 | Some n \<Rightarrow> n),
                            accessLastModified =
                              map_option (toISOString w) (headLastModified head) \<rparr>)))"

definition getObjectAccess ::
  "world \<Rightarrow> js_value \<Rightarrow> s3_call list \<times> (server_error + object_access)" where
  "getObjectAccess w = createServerFn objectAccessSchema (getObjectAccessHandler w)"

section \<open>The hook useObjectAccess\<close>

datatype access_state =
    Idle
  | Loading string
  | Error string string
  | Success string object_access

text \<open>What the promise of \<^verbatim>\<open>getObjectAccess\<close> settles with.\<close>

datatype thrown = ErrorInstance string | OtherValue

datatype outcome = Resolved object_access | Rejected thrown

definition defaultMessage :: string where
  "defaultMessage =
     ''Une erreur est survenue lors de la r'' @ [CHR 0xC3, CHR 0xA9] @ ''cup''
     @ [CHR 0xC3, CHR 0xA9] @ ''ration du document.''"

definition messageOf :: "thrown \<Rightarrow> string" where
  "messageOf error = (case error of ErrorInstance m \<Rightarrow> m | OtherValue \<Rightarrow> defaultMessage)"

text \<open>
  One run of the effect with a key closes over that key and over its own flag \<^verbatim>\<open>aborted\<close>;
  \<open>settled\<close> records that its promise has settled (a promise settles once).
\<close>

record effect_run =
  runKey :: string
  aborted :: bool
  settled :: bool

text \<open>
  A mounted hook: the value of \<^verbatim>\<open>useState\<close>, the dependencies \<^verbatim>\<open>[key, disposition]\<close> of the
  last run of the effect (none before the first), every run that started a fetch, and the run
  whose cleanup is the pending one.
\<close>

record hook =
  state :: access_state
  deps :: "(string option \<times> disposition) option"
  runs :: "effect_run list"
  cleanup :: "nat option"

definition mount :: hook where
  "mount = \<lparr> state = Idle, deps = None, runs = [], cleanup = None \<rparr>"

text \<open>
  The events of the hook: React commits a render with the arguments \<^verbatim>\<open>key\<close> and
  \<^verbatim>\<open>disposition\<close>, or the promise of a run settles. JavaScript runs each of them to completion.
\<close>

datatype event =
    Render "string option" disposition
  | Settle nat outcome

text \<open>The cleanup of the previous run: \<^verbatim>\<open>aborted = true\<close>.\<close>

definition runCleanup :: "hook \<Rightarrow> hook" where
  "runCleanup h =
     (case cleanup h of
        None \<Rightarrow> h
      | Some i \<Rightarrow> h\<lparr> runs := (runs h)[i := (runs h ! i)\<lparr> aborted := True \<rparr>], cleanup := None \<rparr>)"

text \<open>
  A committed render runs the effect when a dependency has changed: first the cleanup of the
  previous run, then the body.
\<close>

definition useEffect :: "hook \<Rightarrow> string option \<Rightarrow> disposition \<Rightarrow> hook" where
  "useEffect h k d =
     (if deps h = Some (k, d) then h
      else let h1 = (runCleanup h)\<lparr> deps := Some (k, d) \<rparr>
           in if \<not> truthy k then h1\<lparr> state := Idle \<rparr>
              else h1\<lparr> state := Loading (the k),
                       runs := runs h1 @ [\<lparr> runKey = the k, aborted = False, settled = False \<rparr>],
                       cleanup := Some (length (runs h1)) \<rparr>)"

text \<open>The callbacks of \<^verbatim>\<open>.then\<close> and \<^verbatim>\<open>.catch\<close> of run \<open>i\<close>.\<close>

definition settle :: "hook \<Rightarrow> nat \<Rightarrow> outcome \<Rightarrow> hook" where
  "settle h i result =
     (if i < length (runs h) \<and> \<not> settled (runs h ! i)
      then let run = runs h ! i;
               h1 = h\<lparr> runs := (runs h)[i := run\<lparr> settled := True \<rparr>] \<rparr>
           in if aborted run then h1
              else (case result of
                      Resolved data \<Rightarrow> h1\<lparr> state := Success (runKey run) data \<rparr>
                    | Rejected error \<Rightarrow> h1\<lparr> state := Error (runKey run) (messageOf error) \<rparr>)
      else h)"

fun step :: "hook \<Rightarrow> event \<Rightarrow> hook" where
  "step h (Render k d) = useEffect h k d"
| "step h (Settle i result) = settle h i result"

definition useObjectAccess :: "event list \<Rightarrow> hook" where
  "useObjectAccess events = foldl step mount events"

text \<open>The key of the last committed render (\<open>k0\<close> when nothing has been rendered).\<close>

fun selectedKey :: "string option \<Rightarrow> event list \<Rightarrow> string option" where
  "selectedKey k0 [] = k0"
| "selectedKey k0 (Render k d # events) = selectedKey k events"
| "selectedKey k0 (Settle i result # events) = selectedKey k0 events"

definition stateKey :: "access_state \<Rightarrow> string option" where
  "stateKey s =
     (case s of Idle \<Rightarrow> None | Loading k \<Rightarrow> Some k | Error k m \<Rightarrow> Some k | Success k d \<Rightarrow> Some k)"

text \<open>The state that belongs to a selection: idle without a key, the state of that key with one.\<close>

definition correspondsTo :: "access_state \<Rightarrow> string option \<Rightarrow> bool" where
  "correspondsTo s k = (if truthy k then stateKey s = k else s = Idle)"

text \<open>The key of the dependencies of the last run of the effect.\<close>

definition selectionOf :: "hook \<Rightarrow> string option" where
  "selectionOf h = (case deps h of None \<Rightarrow> None | Some (k, d) \<Rightarrow> k)"

text \<open>
  What every reachable hook satisfies: before the first run nothing has happened; afterwards
  the state belongs to the key of the last run, the run of a key is the one pending cleanup and
  is not aborted, and every other run is aborted.
\<close>

definition hookInv :: "hook \<Rightarrow> bool" where
  "hookInv h =
     ((deps h = None \<longrightarrow> state h = Idle \<and> runs h = [] \<and> cleanup h = None)
      \<and> (\<forall>k d. deps h = Some (k, d) \<longrightarrow>
            correspondsTo (state h) k
            \<and> (if truthy k
               then \<exists>i. cleanup h = Some i \<and> i < length (runs h)
                        \<and> runKey (runs h ! i) = the k \<and> \<not> aborted (runs h ! i)
               else cleanup h = None))
      \<and> (\<forall>j < length (runs h). cleanup h \<noteq> Some j \<longrightarrow> aborted (runs h ! j)))"

section \<open>Notions of the specification\<close>

text \<open>
  A request field holds a positive integer (at most \<open>m\<close>): the words of the specification for
  a well-formed page number and page size.
\<close>

definition isPositiveInteger :: "js_value \<Rightarrow> bool" where
  "isPositiveInteger v = (\<exists>n::int. 0 < n \<and> v = JNumber (of_int n))"

definition isPositiveIntegerAtMost :: "int \<Rightarrow> js_value \<Rightarrow> bool" where
  "isPositiveIntegerAtMost m v = (\<exists>n::int. 0 < n \<and> n \<le> m \<and> v = JNumber (of_int n))"

text \<open>
  A malformed listing request: a page number that is given and is not a positive integer, or a
  page size that is given and is not a positive integer up to 50. (A field that is not given
  takes its default.)
\<close>

definition malformedListing :: "(string \<times> js_value) list \<Rightarrow> bool" where
  "malformedListing props =
     ((getProp props ''foldersPage'' \<noteq> JUndefined
         \<and> \<not> isPositiveInteger (getProp props ''foldersPage''))
      \<or> (getProp props ''filesPage'' \<noteq> JUndefined
         \<and> \<not> isPositiveInteger (getProp props ''filesPage''))
      \<or> (getProp props ''itemsPerPage'' \<noteq> JUndefined
         \<and> \<not> isPositiveIntegerAtMost 50 (getProp props ''itemsPerPage'')))"

text \<open>
  What a store answers under a queried prefix with the delimiter \<^verbatim>\<open>/\<close>: every common prefix
  begins with the queried prefix; what follows is a name without a slash and then one slash,
  or nothing at all when the store echoes the queried prefix itself.
\<close>

definition storeCommonPrefixes :: "string \<Rightarrow> common_prefix list option \<Rightarrow> bool" where
  "storeCommonPrefixes prefix commonPrefixes =
     (\<forall>entry \<in> set (case commonPrefixes of None \<Rightarrow> [] | Some entries \<Rightarrow> entries).
        case Prefix entry of
          None \<Rightarrow> True
        | Some p \<Rightarrow>
            startsWith p prefix
            \<and> (drop (length prefix) p = []
               \<or> endsWithSlash (drop (length prefix) p)
                  \<and> CHR ''/'' \<notin> set (butlast (drop (length prefix) p))))"

text \<open>
  The folders in the words and in the order of the specification: strip the queried prefix
  from each common-prefix string to obtain the name, drop the trailing slash, discard the name
  when it is empty or equals the prefix itself, and rebuild the prefix as queried prefix, name
  and a slash.
\<close>

definition specFolders :: "string \<Rightarrow> common_prefix list option \<Rightarrow> folder_summary list" where
  "specFolders prefix commonPrefixes =
     map (\<lambda>n. \<lparr> name = n, prefix' = prefix @ n @ ''/'' \<rparr>)
       (filter (\<lambda>n. n \<noteq> [] \<and> n \<noteq> prefix)
          (map (\<lambda>p. let stripped = drop (length prefix) p
                    in if stripped \<noteq> [] \<and> last stripped = CHR ''/'' then butlast stripped
                       else stripped)
             (concat (map (\<lambda>entry. case Prefix entry of None \<Rightarrow> [] | Some p \<Rightarrow> [p])
                (case commonPrefixes of None \<Rightarrow> [] | Some entries \<Rightarrow> entries)))))"

text \<open>
  The code discards before it drops the slash, the specification after. The two select the
  same folders on a listing in which no child has the empty name (no remainder is a lone
  slash) and no child is named like the whole queried prefix.
\<close>

definition plainChildren :: "string \<Rightarrow> common_prefix list option \<Rightarrow> bool" where
  "plainChildren prefix commonPrefixes =
     (\<forall>entry \<in> set (case commonPrefixes of None \<Rightarrow> [] | Some entries \<Rightarrow> entries).
        case Prefix entry of
          None \<Rightarrow> True
        | Some p \<Rightarrow>
            drop (length prefix) p \<noteq> ''/''
            \<and> (drop (length prefix) p = prefix \<longrightarrow> prefix = []))"

text \<open>The two stages of \<^verbatim>\<open>safeMapObjects\<close>: the entries with a key, and the summary of one.\<close>

definition keyedObjects :: "s3_object list option \<Rightarrow> s3_object list" where
  "keyedObjects contents =
     filter (\<lambda>object. truthy (Key object)) (case contents of None \<Rightarrow> [] | Some objs \<Rightarrow> objs)"

definition toSummary :: "(js_date \<Rightarrow> string) \<Rightarrow> s3_object \<Rightarrow> object_summary" where
  "toSummary toISO object =
     \<lparr> key = the (Key object),
       size' = (case Size object of None \<Rightarrow> 0 | Some n \<Rightarrow> n),
       lastModified = map_option toISO (LastModified object),
       etag = ETag object \<rparr>"

text \<open>
  An entry of a listing is mapped from an entry of the store: its key is that entry's key and
  is not empty; its size is 0 when that entry has no size, and is that entry's size otherwise.
\<close>

definition mappedFrom :: "s3_object list option \<Rightarrow> object_summary \<Rightarrow> bool" where
  "mappedFrom contents e =
     (key e \<noteq> []
      \<and> (\<exists>object \<in> set (case contents of None \<Rightarrow> [] | Some objs \<Rightarrow> objs).
            Key object = Some (key e)
            \<and> (Size object = None \<and> size' e = 0 \<or> Size object = Some (size' e))))"

section \<open>An example bucket\<close>

text \<open>
  The example of the specification: under \<^verbatim>\<open>docs/\<close>, the files \<^verbatim>\<open>a\<close> (modified 2024-01-01),
  \<^verbatim>\<open>b\<close> (modified 2024-03-01) and \<^verbatim>\<open>c\<close> (no time stamp), and two folders. The collation of
  the example compares code units.
\<close>

definition exampleISO :: "js_date \<Rightarrow> string" where
  "exampleISO d =
     (if d = 1704067200000 then ''2024-01-01T00:00:00.000Z''
      else if d = 1709251200000 then ''2024-03-01T00:00:00.000Z''
      else ''1970-01-01T00:00:00.000Z'')"

definition codeUnitCompare :: "string \<Rightarrow> string \<Rightarrow> int" where
  "codeUnitCompare a b = (if a < b then - 1 else if b < a then 1 else 0)"

definition exampleContents :: "s3_object list" where
  "exampleContents =
     [\<lparr> Key = Some ''docs/a'', Size = Some 10, LastModified = Some 1704067200000, ETag = None \<rparr>,
      \<lparr> Key = Some ''docs/b'', Size = None, LastModified = Some 1709251200000, ETag = None \<rparr>,
      \<lparr> Key = Some ''docs/c'', Size = Some 30, LastModified = None, ETag = None \<rparr>]"

definition exampleOutput :: list_output where
  "exampleOutput =
     \<lparr> Contents = Some exampleContents,
       CommonPrefixes = Some [\<lparr> Prefix = Some ''docs/y/'' \<rparr>, \<lparr> Prefix = Some ''docs/x/'' \<rparr>],
       IsTruncated = Some False,
       NextContinuationToken = None \<rparr>"

definition exampleWorld :: world where
  "exampleWorld =
     \<lparr> S3_BUCKET = ''bucket'',
       sendList = (\<lambda>command. Inr exampleOutput),
       sendHead = (\<lambda>command.
         Inr \<lparr> ContentType = None, ContentLength = None, headLastModified = None \<rparr>),
       getSignedUrl = (\<lambda>command expiresIn. Inr ''https://signed.example/docs/a''),
       toISOString = exampleISO,
       localeCompare = codeUnitCompare \<rparr>"

definition exampleRequest :: paginated_request where
  "exampleRequest =
     \<lparr> prPrefix = Some ''docs'', foldersPage = 1, filesPage = 1, itemsPerPage = 2 \<rparr>"

text \<open>A request for the third page of the files, of which there are two.\<close>

definition beyondRequest :: js_value where
  "beyondRequest =
     JObject [(''prefix'', JString ''docs''), (''filesPage'', JNumber 3),
              (''itemsPerPage'', JNumber 2)]"



text \<open>Key \<^verbatim>\<open>A\<close> is selected, then key \<^verbatim>\<open>B\<close> before the fetch of \<^verbatim>\<open>A\<close> has settled.\<close>

definition staleEvents :: "event list" where
  "staleEvents = [Render (Some ''A'') Inline, Render (Some ''B'') Inline]"

definition grantA :: object_access where
  "grantA = \<lparr> accessKey = ''A'', signedUrl = ''https://signed.example/A'',
             contentType = ''text/plain'', contentLength = 1, accessLastModified = None \<rparr>"

text \<open>A store that reports the size \<open>-1\<close> for an object.\<close>

definition negativeSizeOutput :: list_output where
  "negativeSizeOutput =
     \<lparr> Contents = Some [\<lparr> Key = Some ''docs/n'', Size = Some (- 1), LastModified = None,
                           ETag = None \<rparr>],
       CommonPrefixes = None,
       IsTruncated = Some False,
       NextContinuationToken = None \<rparr>"

definition negativeSizeWorld :: world where
  "negativeSizeWorld = exampleWorld\<lparr> sendList := (\<lambda>command. Inr negativeSizeOutput) \<rparr>"

text \<open>
  Two objects, one modified on 2024-01-01 and one on the first day of the year 10000, with
  the strings that \<^verbatim>\<open>Date.prototype.toISOString\<close> gives for the two time values: a year beyond
  9999 is written with a sign and six digits.
\<close>

definition farFutureISO :: "js_date \<Rightarrow> string" where
  "farFutureISO d =
     (if d = 253402300800000 then ''+010000-01-01T00:00:00.000Z''
      else if d = 1704067200000 then ''2024-01-01T00:00:00.000Z''
      else ''1970-01-01T00:00:00.000Z'')"

definition farFutureOutput :: list_output where
  "farFutureOutput =
     \<lparr> Contents = Some
         [\<lparr> Key = Some ''docs/far'', Size = Some 1, LastModified = Some 253402300800000,
            ETag = None \<rparr>,
          \<lparr> Key = Some ''docs/old'', Size = Some 1, LastModified = Some 1704067200000,
            ETag = None \<rparr>],
       CommonPrefixes = None,
       IsTruncated = Some False,
       NextContinuationToken = None \<rparr>"

definition farFutureWorld :: world where
  "farFutureWorld =
     exampleWorld\<lparr> sendList := (\<lambda>command. Inr farFutureOutput), toISOString := farFutureISO \<rparr>"

text \<open>
  A collation that ranks the letters of ASCII without regard to case, and lower case first
  among equals, as the collations of \<^verbatim>\<open>localeCompare\<close> do; and a bucket with the folders
  \<^verbatim>\<open>B\<close> and \<^verbatim>\<open>a\<close> under \<^verbatim>\<open>docs/\<close>.
\<close>

definition foldCase :: "char \<Rightarrow> char" where
  "foldCase c =
     (case map_of (zip ''ABCDEFGHIJKLMNOPQRSTUVWXYZ'' ''abcdefghijklmnopqrstuvwxyz'') c of
        None \<Rightarrow> c | Some l \<Rightarrow> l)"

definition letterCollation :: "string \<Rightarrow> string \<Rightarrow> int" where
  "letterCollation a b =
     (if map foldCase a < map foldCase b then - 1
      else if map foldCase b < map foldCase a then 1
      else if a = b then 0 else if b < a then - 1 else 1)"

definition mixedCaseOutput :: list_output where
  "mixedCaseOutput =
     \<lparr> Contents = None,
       CommonPrefixes = Some [\<lparr> Prefix = Some ''docs/B/'' \<rparr>, \<lparr> Prefix = Some ''docs/a/'' \<rparr>],
       IsTruncated = Some False,
       NextContinuationToken = None \<rparr>"

definition mixedCaseWorld :: world where
  "mixedCaseWorld =
     exampleWorld\<lparr> sendList := (\<lambda>command. Inr mixedCaseOutput),
                    localeCompare := letterCollation \<rparr>"

text \<open>Under \<^verbatim>\<open>a/\<close>, a folder named \<^verbatim>\<open>a\<close> beside a folder named \<^verbatim>\<open>b\<close>.\<close>

definition sameNameOutput :: list_output where
  "sameNameOutput =
     \<lparr> Contents = None,
       CommonPrefixes = Some [\<lparr> Prefix = Some ''a/a/'' \<rparr>, \<lparr> Prefix = Some ''a/b/'' \<rparr>],
       IsTruncated = Some False,
       NextContinuationToken = None \<rparr>"

section \<open>Prefix normalisation\<close>

text \<open>What the function does right: the root, and every prefix that is not slashes only.\<close>

lemma normalizePrefix_root: "normalizePrefix None = [] \<and> normalizePrefix (Some []) = []"
  by (simp add: normalizePrefix_def truthy_def)

lemma normalizePrefix_name:
  assumes "replaceLeadingSlashes s \<noteq> []"
  shows "normalizePrefix (Some s)
         = (if endsWithSlash s then replaceLeadingSlashes s else replaceLeadingSlashes s @ ''/'')"
proof -
  from assms have s: "s \<noteq> []" by (auto simp: replaceLeadingSlashes_def)
  have "last (dropWhile P s) = last s" if "dropWhile P s \<noteq> []" for P
    using that by (induction s) (auto split: if_splits)
  with assms have "endsWithSlash (replaceLeadingSlashes s) = endsWithSlash s"
    using s by (simp add: endsWithSlash_def replaceLeadingSlashes_def)
  with s show ?thesis by (simp add: normalizePrefix_def truthy_def Let_def)
qed

text \<open>
  C8. Normalisation strips every leading slash and appends a slash only to a non-empty
  remainder, so a prefix of slashes alone should become the empty prefix of the bucket root.
  The function tests for the empty string before it strips, not after: \<^verbatim>\<open>/\<close> and \<^verbatim>\<open>///\<close>
  normalise to \<^verbatim>\<open>/\<close>, which still begins with a slash, and both listings then scope the
  call to the store to the prefix \<^verbatim>\<open>/\<close>, not to the root.
\<close>

theorem normalizePrefix_slashes_only:
  "normalizePrefix (Some ''/'') = ''/'' \<and> normalizePrefix (Some ''///'') = ''/''
   \<and> replaceLeadingSlashes ''/'' = []
   \<and> fst (listObjectsPaginated exampleWorld (JObject [(''prefix'', JString ''/'')]))
       = [SendList \<lparr> lcBucket = ''bucket'', lcPrefix = Some ''/'', lcDelimiter = ''/'',
                     lcContinuationToken = None, lcMaxKeys = 1000 \<rparr>]
   \<and> fst (listObjects exampleWorld (JObject [(''prefix'', JString ''/'')]))
       = [SendList \<lparr> lcBucket = ''bucket'', lcPrefix = Some ''/'', lcDelimiter = ''/'',
                     lcContinuationToken = None, lcMaxKeys = 50 \<rparr>]
   \<and> fst (listObjectsPaginated exampleWorld (JObject []))
       = [SendList \<lparr> lcBucket = ''bucket'', lcPrefix = None, lcDelimiter = ''/'',
                     lcContinuationToken = None, lcMaxKeys = 1000 \<rparr>]"
  by (simp add: normalizePrefix_def truthy_def replaceLeadingSlashes_def endsWithSlash_def
      listObjectsPaginated_def listObjects_def createServerFn_def paginatedListSchema_def
      listRequestSchema_def getProp_def parseOptionalString_def parseIntField_def
      listObjectsPaginatedHandler_def listObjectsHandler_def paginatedListCommand_def
      listCommand_def exampleWorld_def Let_def)

section \<open>Validation comes before storage\<close>

lemma parseIntField_Inr:
  assumes "parseIntField path mx d v = Inr n"
  shows "v = JUndefined \<and> n = d
         \<or> v = JNumber (of_int n) \<and> 0 < n \<and> (\<forall>m. mx = Some m \<longrightarrow> n \<le> m)"
proof (cases v)
  case (JNumber r)
  with assms have nc: "numberChecks path mx r = []" and n: "n = \<lfloor>r\<rfloor>"
    by (auto simp: parseIntField_def split: list.splits)
  from nc have i: "isInteger r" and p: "0 < r" and m: "\<forall>m. mx = Some m \<longrightarrow> r \<le> of_int m"
    by (auto simp: numberChecks_def split: if_splits option.splits)
  from i n have r: "r = of_int n" unfolding isInteger_def by metis
  with p m JNumber show ?thesis by auto
qed (use assms in \<open>auto simp: parseIntField_def split: if_splits\<close>)

lemma parseIntField_Inl:
  assumes "parseIntField path mx d v = Inl issues"
  shows "issues \<noteq> []"
  using assms by (cases v) (auto simp: parseIntField_def split: list.splits if_splits)

lemma paginatedListSchema_fields:
  assumes "paginatedListSchema (JObject props) = Inr data"
  shows "parseIntField ''foldersPage'' None 1 (getProp props ''foldersPage'')
           = Inr (foldersPage data)"
    and "parseIntField ''filesPage'' None 1 (getProp props ''filesPage'')
           = Inr (filesPage data)"
    and "parseIntField ''itemsPerPage'' (Some 50) 10 (getProp props ''itemsPerPage'')
           = Inr (itemsPerPage data)"
  using assms by (auto simp: paginatedListSchema_def Let_def split: sum.splits)

lemma paginatedListSchema_Inr:
  assumes "paginatedListSchema input = Inr data"
  shows "1 \<le> foldersPage data \<and> 1 \<le> filesPage data
         \<and> 1 \<le> itemsPerPage data \<and> itemsPerPage data \<le> 50"
proof -
  from assms obtain props where input: "input = JObject props"
    by (cases input) (auto simp: paginatedListSchema_def)
  note f = paginatedListSchema_fields[OF assms[unfolded input]]
  from parseIntField_Inr[OF f(1)] parseIntField_Inr[OF f(2)] parseIntField_Inr[OF f(3)]
  show ?thesis by auto
qed

lemma paginatedListSchema_Inl:
  assumes "paginatedListSchema input = Inl issues"
  shows "issues \<noteq> []"
proof (cases input)
  case (JObject props)
  let ?p = "parseOptionalString ''prefix'' (getProp props ''prefix'')"
  let ?fo = "parseIntField ''foldersPage'' None 1 (getProp props ''foldersPage'')"
  let ?fi = "parseIntField ''filesPage'' None 1 (getProp props ''filesPage'')"
  let ?ip = "parseIntField ''itemsPerPage'' (Some 50) 10 (getProp props ''itemsPerPage'')"
  have p: "\<And>x. ?p = Inl x \<Longrightarrow> x \<noteq> []"
    by (auto simp: parseOptionalString_def split: js_value.splits)
  from assms JObject have "issues = issuesOf ?p @ issuesOf ?fo @ issuesOf ?fi @ issuesOf ?ip"
    and "isl ?p \<or> isl ?fo \<or> isl ?fi \<or> isl ?ip"
    by (auto simp: paginatedListSchema_def Let_def split: sum.splits)
  then show ?thesis
    using p parseIntField_Inl
    by (auto simp: issuesOf_def split: sum.splits)
qed (use assms in \<open>auto simp: paginatedListSchema_def\<close>)

text \<open>
  C6. A malformed listing request is answered with a validation error that names at least
  one issue, and no call to the storage service has been issued.
\<close>

theorem listObjectsPaginated_rejects_malformed:
  assumes "malformedListing props"
  shows "\<exists>issues. issues \<noteq> []
           \<and> listObjectsPaginated w (JObject props) = ([], Inl (ValidationError issues))"
proof (cases "paginatedListSchema (JObject props)")
  case (Inl issues)
  with paginatedListSchema_Inl[OF Inl] show ?thesis
    by (simp add: listObjectsPaginated_def createServerFn_def)
next
  case (Inr data)
  note f = paginatedListSchema_fields[OF Inr]
  from parseIntField_Inr[OF f(1)] parseIntField_Inr[OF f(2)] parseIntField_Inr[OF f(3)] assms
  have False
    unfolding malformedListing_def isPositiveInteger_def isPositiveIntegerAtMost_def
    by auto
  then show ?thesis ..
qed

theorem listObjectsPaginated_rejects_malformed_witness:
  "malformedListing [(''foldersPage'', JNumber 0)]
   \<and> (\<exists>issues. issues \<noteq> []
         \<and> listObjectsPaginated exampleWorld (JObject [(''foldersPage'', JNumber 0)])
            = ([], Inl (ValidationError issues)))"
proof -
  have h: "malformedListing [(''foldersPage'', JNumber 0)]"
    by (simp add: malformedListing_def getProp_def isPositiveInteger_def)
  from listObjectsPaginated_rejects_malformed[OF h, of exampleWorld] h show ?thesis by simp
qed

section \<open>Pagination\<close>

lemma slice_nonneg:
  assumes "0 \<le> s" and "s \<le> e"
  shows "slice xs s e = take (nat (e - s)) (drop (nat s) xs)"
proof (cases "s \<le> int (length xs)")
  case True
  with assms show ?thesis
    by (auto simp: slice_def Let_def min_def nat_diff_distrib)
next
  case False
  with assms show ?thesis
    by (simp add: slice_def Let_def min_def)
qed

lemma concat_pages:
  assumes "0 < n"
  shows "concat (map (\<lambda>q. slice xs ((q - 1) * n) ((q - 1) * n + n)) [1..int m])
         = take (m * nat n) xs"
proof (induction m)
  case 0
  show ?case by simp
next
  case (Suc m)
  let ?f = "\<lambda>q. slice xs ((q - 1) * n) ((q - 1) * n + n)"
  have u: "[1..int (Suc m)] = [1..int m] @ [int m + 1]"
    using upto_rec2[of 1 "int m + 1"] by (simp add: add.commute)
  have "0 \<le> int m * n" using assms by simp
  then have "?f (int m + 1) = take (nat (int m * n + n - int m * n)) (drop (nat (int m * n)) xs)"
    using slice_nonneg[of "int m * n" "int m * n + n" xs] assms by simp
  also have "\<dots> = take (nat n) (drop (m * nat n) xs)"
    by (simp add: nat_mult_distrib)
  finally have s: "?f (int m + 1) = take (nat n) (drop (m * nat n) xs)" .
  have "concat (map ?f [1..int (Suc m)]) = concat (map ?f [1..int m]) @ ?f (int m + 1)"
    unfolding u by simp
  also have "\<dots> = take (m * nat n) xs @ take (nat n) (drop (m * nat n) xs)"
    unfolding Suc.IH s ..
  also have "\<dots> = take (m * nat n + nat n) xs"
    by (rule take_add[symmetric])
  also have "m * nat n + nat n = Suc m * nat n" by simp
  finally show ?case .
qed

lemma ceilDiv_div: "ceilDiv a b = - ((- int a) div b)"
  unfolding ceilDiv_def using ceiling_divide_eq_div[of "int a" b] by simp

lemma ceilDiv_bounds:
  assumes "0 < b"
  shows "int a \<le> ceilDiv a b * b" and "0 \<le> ceilDiv a b"
    and "0 < a \<Longrightarrow> (ceilDiv a b - 1) * b < int a"
    and "a = 0 \<Longrightarrow> ceilDiv a b = 0"
proof -
  let ?q = "(- int a) div b" and ?r = "(- int a) mod b"
  have d: "- int a = ?q * b + ?r" by simp
  have r: "0 \<le> ?r" "?r < b" using assms by simp_all
  have c: "ceilDiv a b = - ?q" by (rule ceilDiv_div)
  have m: "- ?q * b = - (?q * b)" "(- ?q - 1) * b = - (?q * b) - b"
    by (simp_all add: algebra_simps)
  from d r show "int a \<le> ceilDiv a b * b" unfolding c m by linarith
  show "0 \<le> ceilDiv a b" unfolding c
    using div_nonpos_pos_le0[of "- int a" b] assms by simp
  show "(ceilDiv a b - 1) * b < int a" if "0 < a"
    using d r unfolding c m by linarith
  show "ceilDiv a b = 0" if "a = 0" using that by (simp add: ceilDiv_def)
qed


lemma handler_Inr:
  assumes "sendList w (paginatedListCommand w (normalizePrefix (prPrefix data))) = Inr response"
  shows "listObjectsPaginatedHandler w data
         = ([SendList (paginatedListCommand w (normalizePrefix (prPrefix data)))],
            Inr (paginatedResult w data (normalizePrefix (prPrefix data)) response))"
  using assms by (simp add: listObjectsPaginatedHandler_def Let_def)

lemma filesPageOf_slice:
  assumes "sendList w (paginatedListCommand w (normalizePrefix (prPrefix data))) = Inr response"
  shows "filesPageOf w data q
         = slice (allObjects w response) ((q - 1) * itemsPerPage data)
             ((q - 1) * itemsPerPage data + itemsPerPage data)"
  using handler_Inr[of w "data\<lparr> filesPage := q \<rparr>" response] assms
  by (simp add: filesPageOf_def paginatedResult_def Let_def)

lemma foldersPageOf_slice:
  assumes "sendList w (paginatedListCommand w (normalizePrefix (prPrefix data))) = Inr response"
  shows "foldersPageOf w data p
         = slice (allFolders w (normalizePrefix (prPrefix data)) response)
             ((p - 1) * itemsPerPage data) ((p - 1) * itemsPerPage data + itemsPerPage data)"
  using handler_Inr[of w "data\<lparr> foldersPage := p \<rparr>" response] assms
  by (simp add: foldersPageOf_def paginatedResult_def Let_def)

lemma length_page:
  assumes "0 < n" and "1 \<le> q"
  shows "int (length (slice xs ((q - 1) * n) ((q - 1) * n + n))) \<le> n"
proof -
  have "0 \<le> (q - 1) * n" using assms by simp
  then show ?thesis
    using slice_nonneg[of "(q - 1) * n" "(q - 1) * n + n" xs] assms by simp
qed

lemma concat_all_pages:
  assumes "0 < n"
  shows "concat (map (\<lambda>q. slice xs ((q - 1) * n) ((q - 1) * n + n)) [1..ceilDiv (length xs) n])
         = xs"
proof -
  let ?m = "nat (ceilDiv (length xs) n)"
  have m: "int ?m = ceilDiv (length xs) n"
    using ceilDiv_bounds(2)[OF assms] by simp
  have "int (length xs) \<le> int ?m * n"
    unfolding m by (rule ceilDiv_bounds(1)[OF assms])
  also have "\<dots> = int (?m * nat n)" using assms by simp
  finally have "length xs \<le> ?m * nat n" by linarith
  then show ?thesis
    using concat_pages[OF assms, of xs ?m] unfolding m by simp
qed

lemma page_beyond_empty:
  assumes "0 < n" and "ceilDiv (length xs) n < q"
  shows "slice xs ((q - 1) * n) ((q - 1) * n + n) = []"
proof -
  have q: "ceilDiv (length xs) n \<le> q - 1" using assms(2) by simp
  have "int (length xs) \<le> ceilDiv (length xs) n * n" by (rule ceilDiv_bounds(1)[OF assms(1)])
  also have "\<dots> \<le> (q - 1) * n" using q assms(1) by (simp add: mult_right_mono)
  finally have l: "int (length xs) \<le> (q - 1) * n" .
  then have "0 \<le> (q - 1) * n" by linarith
  then show ?thesis
    using slice_nonneg[of "(q - 1) * n" "(q - 1) * n + n" xs] assms(1) l by simp
qed

text \<open>
  C1. For a valid request whose call to the store succeeds, each of the two lists has
  \<open>totalPages = \<lceil>totalItems / itemsPerPage\<rceil>\<close> (0 for an empty list), every page has at most
  \<open>itemsPerPage\<close> entries, and the pages 1 to \<open>totalPages\<close>, one after the other, are the
  whole sorted list; the pages of the files do not depend on the page of the folders, nor the
  other way round.
\<close>

theorem listObjectsPaginated_pages:
  assumes "1 \<le> itemsPerPage data" and "itemsPerPage data \<le> 50"
    and "1 \<le> foldersPage data" and "1 \<le> filesPage data"
    and "sendList w (paginatedListCommand w (normalizePrefix (prPrefix data))) = Inr response"
  shows "\<exists>r. snd (listObjectsPaginatedHandler w data) = Inr r
           \<and> totalItems (pgFiles (pagination r)) = length (allObjects w response)
           \<and> totalItems (pgFolders (pagination r))
               = length (allFolders w (normalizePrefix (prPrefix data)) response)
           \<and> totalPages (pgFiles (pagination r))
               = \<lceil>real (totalItems (pgFiles (pagination r))) / real_of_int (itemsPerPage data)\<rceil>
           \<and> totalPages (pgFolders (pagination r))
               = \<lceil>real (totalItems (pgFolders (pagination r))) / real_of_int (itemsPerPage data)\<rceil>
           \<and> (totalItems (pgFiles (pagination r)) = 0 \<longrightarrow> totalPages (pgFiles (pagination r)) = 0)
           \<and> (totalItems (pgFolders (pagination r)) = 0
                \<longrightarrow> totalPages (pgFolders (pagination r)) = 0)
           \<and> objects r = filesPageOf w data (filesPage data)
           \<and> folders r = foldersPageOf w data (foldersPage data)
           \<and> (\<forall>q\<ge>1. int (length (filesPageOf w data q)) \<le> itemsPerPage data)
           \<and> (\<forall>p\<ge>1. int (length (foldersPageOf w data p)) \<le> itemsPerPage data)
           \<and> concat (map (filesPageOf w data) [1..totalPages (pgFiles (pagination r))])
               = allObjects w response
           \<and> concat (map (foldersPageOf w data) [1..totalPages (pgFolders (pagination r))])
               = allFolders w (normalizePrefix (prPrefix data)) response"
proof -
  let ?prefix = "normalizePrefix (prPrefix data)"
  let ?r = "paginatedResult w data ?prefix response"
  have n: "0 < itemsPerPage data" using assms(1) by simp
  have r: "snd (listObjectsPaginatedHandler w data) = Inr ?r"
    by (simp add: handler_Inr[OF assms(5)])
  have fo: "filesPageOf w data = (\<lambda>q. slice (allObjects w response) ((q - 1) * itemsPerPage data)
             ((q - 1) * itemsPerPage data + itemsPerPage data))"
    by (rule ext) (rule filesPageOf_slice[OF assms(5)])
  have fd: "foldersPageOf w data = (\<lambda>p. slice (allFolders w ?prefix response)
             ((p - 1) * itemsPerPage data) ((p - 1) * itemsPerPage data + itemsPerPage data))"
    by (rule ext) (rule foldersPageOf_slice[OF assms(5)])
  have t1: "totalItems (pgFiles (pagination ?r)) = length (allObjects w response)"
    and t2: "totalItems (pgFolders (pagination ?r)) = length (allFolders w ?prefix response)"
    and p1: "totalPages (pgFiles (pagination ?r))
              = ceilDiv (length (allObjects w response)) (itemsPerPage data)"
    and p2: "totalPages (pgFolders (pagination ?r))
              = ceilDiv (length (allFolders w ?prefix response)) (itemsPerPage data)"
    and o: "objects ?r = filesPageOf w data (filesPage data)"
    and f: "folders ?r = foldersPageOf w data (foldersPage data)"
    by (simp_all add: paginatedResult_def Let_def fo fd)
  have c1: "totalPages (pgFiles (pagination ?r))
      = \<lceil>real (totalItems (pgFiles (pagination ?r))) / real_of_int (itemsPerPage data)\<rceil>"
    unfolding p1 t1 by (simp add: ceilDiv_def)
  have c2: "totalPages (pgFolders (pagination ?r))
      = \<lceil>real (totalItems (pgFolders (pagination ?r))) / real_of_int (itemsPerPage data)\<rceil>"
    unfolding p2 t2 by (simp add: ceilDiv_def)
  have z1: "totalItems (pgFiles (pagination ?r)) = 0 \<longrightarrow> totalPages (pgFiles (pagination ?r)) = 0"
    unfolding p1 t1 using ceilDiv_bounds(4)[OF n] by blast
  have z2: "totalItems (pgFolders (pagination ?r)) = 0
      \<longrightarrow> totalPages (pgFolders (pagination ?r)) = 0"
    unfolding p2 t2 using ceilDiv_bounds(4)[OF n] by blast
  have l1: "\<forall>q\<ge>1. int (length (filesPageOf w data q)) \<le> itemsPerPage data"
    unfolding fo using length_page[OF n] by blast
  have l2: "\<forall>p\<ge>1. int (length (foldersPageOf w data p)) \<le> itemsPerPage data"
    unfolding fd using length_page[OF n] by blast
  have a1: "concat (map (filesPageOf w data) [1..totalPages (pgFiles (pagination ?r))])
      = allObjects w response"
    unfolding p1 fo by (rule concat_all_pages[OF n])
  have a2: "concat (map (foldersPageOf w data) [1..totalPages (pgFolders (pagination ?r))])
      = allFolders w ?prefix response"
    unfolding p2 fd by (rule concat_all_pages[OF n])
  show ?thesis
    by (rule exI[of _ ?r]) (intro conjI r t1 t2 c1 c2 z1 z2 o f l1 l2 a1 a2)
qed

theorem listObjectsPaginated_pages_witness:
  "1 \<le> itemsPerPage exampleRequest \<and> itemsPerPage exampleRequest \<le> 50
   \<and> 1 \<le> foldersPage exampleRequest \<and> 1 \<le> filesPage exampleRequest
   \<and> sendList exampleWorld
        (paginatedListCommand exampleWorld (normalizePrefix (prPrefix exampleRequest)))
       = Inr exampleOutput
   \<and> (\<exists>r. snd (listObjectsPaginatedHandler exampleWorld exampleRequest) = Inr r
         \<and> totalItems (pgFiles (pagination r)) = 3
         \<and> totalPages (pgFiles (pagination r)) = 2
         \<and> concat (map (filesPageOf exampleWorld exampleRequest) [1..2])
             = allObjects exampleWorld exampleOutput)"
proof -
  have h: "1 \<le> itemsPerPage exampleRequest" "itemsPerPage exampleRequest \<le> 50"
    "1 \<le> foldersPage exampleRequest" "1 \<le> filesPage exampleRequest"
    by (simp_all add: exampleRequest_def)
  have s: "sendList exampleWorld
        (paginatedListCommand exampleWorld (normalizePrefix (prPrefix exampleRequest)))
       = Inr exampleOutput"
    by (simp add: exampleWorld_def)
  have l: "length (allObjects exampleWorld exampleOutput) = 3"
    by (simp add: allObjects_def exampleOutput_def exampleContents_def safeMapObjects_def
        truthy_def sort'_def)
  have i: "itemsPerPage exampleRequest = 2" by (simp add: exampleRequest_def)
  from listObjectsPaginated_pages[OF h s] obtain r where
    r: "snd (listObjectsPaginatedHandler exampleWorld exampleRequest) = Inr r"
    and t: "totalItems (pgFiles (pagination r)) = length (allObjects exampleWorld exampleOutput)"
    and p: "totalPages (pgFiles (pagination r))
               = \<lceil>real (totalItems (pgFiles (pagination r)))
                    / real_of_int (itemsPerPage exampleRequest)\<rceil>"
    and c: "concat (map (filesPageOf exampleWorld exampleRequest)
                      [1..totalPages (pgFiles (pagination r))])
               = allObjects exampleWorld exampleOutput"
    by blast
  have p2: "totalPages (pgFiles (pagination r)) = 2"
    unfolding p t l i by simp
  from r t l p2 c h s show ?thesis by auto
qed

text \<open>
  C2. For a request that passes validation and whose call to the store succeeds, the listing
  succeeds; in the metadata of each list \<open>hasNextPage\<close> is \<open>page < totalPages\<close> and
  \<open>hasPrevPage\<close> is \<open>page > 1\<close>; and a page beyond \<open>totalPages\<close> is empty, with
  \<open>hasNextPage\<close> false.
\<close>

theorem listObjectsPaginated_page_flags:
  assumes "paginatedListSchema input = Inr data"
    and "sendList w (paginatedListCommand w (normalizePrefix (prPrefix data))) = Inr response"
  shows "\<exists>calls r. listObjectsPaginated w input = (calls, Inr r)
           \<and> currentPage (pgFolders (pagination r)) = foldersPage data
           \<and> currentPage (pgFiles (pagination r)) = filesPage data
           \<and> hasNextPage (pgFolders (pagination r))
               = (foldersPage data < totalPages (pgFolders (pagination r)))
           \<and> hasPrevPage (pgFolders (pagination r)) = (foldersPage data > 1)
           \<and> hasNextPage (pgFiles (pagination r))
               = (filesPage data < totalPages (pgFiles (pagination r)))
           \<and> hasPrevPage (pgFiles (pagination r)) = (filesPage data > 1)
           \<and> (totalPages (pgFolders (pagination r)) < foldersPage data
                \<longrightarrow> folders r = [] \<and> \<not> hasNextPage (pgFolders (pagination r)))
           \<and> (totalPages (pgFiles (pagination r)) < filesPage data
                \<longrightarrow> objects r = [] \<and> \<not> hasNextPage (pgFiles (pagination r)))"
proof -
  let ?prefix = "normalizePrefix (prPrefix data)"
  let ?r = "paginatedResult w data ?prefix response"
  let ?calls = "[SendList (paginatedListCommand w ?prefix)]"
  from paginatedListSchema_Inr[OF assms(1)] have n: "0 < itemsPerPage data" by simp
  have r: "listObjectsPaginated w input = (?calls, Inr ?r)"
    by (simp add: listObjectsPaginated_def createServerFn_def assms(1) handler_Inr[OF assms(2)])
  have m: "currentPage (pgFolders (pagination ?r)) = foldersPage data"
    "currentPage (pgFiles (pagination ?r)) = filesPage data"
    "hasNextPage (pgFolders (pagination ?r))
               = (foldersPage data < totalPages (pgFolders (pagination ?r)))"
    "hasPrevPage (pgFolders (pagination ?r)) = (foldersPage data > 1)"
    "hasNextPage (pgFiles (pagination ?r))
               = (filesPage data < totalPages (pgFiles (pagination ?r)))"
    "hasPrevPage (pgFiles (pagination ?r)) = (filesPage data > 1)"
    by (simp_all add: paginatedResult_def Let_def)
  have fo: "totalPages (pgFolders (pagination ?r)) < foldersPage data
      \<longrightarrow> folders ?r = [] \<and> \<not> hasNextPage (pgFolders (pagination ?r))"
    using page_beyond_empty[OF n, of "allFolders w ?prefix response" "foldersPage data"]
    by (simp add: paginatedResult_def Let_def)
  have fi: "totalPages (pgFiles (pagination ?r)) < filesPage data
      \<longrightarrow> objects ?r = [] \<and> \<not> hasNextPage (pgFiles (pagination ?r))"
    using page_beyond_empty[OF n, of "allObjects w response" "filesPage data"]
    by (simp add: paginatedResult_def Let_def)
  show ?thesis
    by (rule exI[of _ ?calls], rule exI[of _ ?r]) (intro conjI r m fo fi)
qed

lemma beyondRequest_parsed:
  "paginatedListSchema beyondRequest
   = Inr \<lparr> prPrefix = Some ''docs'', foldersPage = 1, filesPage = 3, itemsPerPage = 2 \<rparr>"
  by (simp add: beyondRequest_def paginatedListSchema_def getProp_def parseOptionalString_def
      parseIntField_def numberChecks_def isInteger_def)

theorem listObjectsPaginated_page_flags_witness:
  "paginatedListSchema beyondRequest
     = Inr \<lparr> prPrefix = Some ''docs'', foldersPage = 1, filesPage = 3, itemsPerPage = 2 \<rparr>
   \<and> sendList exampleWorld (paginatedListCommand exampleWorld (normalizePrefix (Some ''docs'')))
       = Inr exampleOutput
   \<and> (\<exists>calls r. listObjectsPaginated exampleWorld beyondRequest = (calls, Inr r)
         \<and> totalPages (pgFiles (pagination r)) = 2
         \<and> objects r = [] \<and> \<not> hasNextPage (pgFiles (pagination r))
         \<and> hasPrevPage (pgFiles (pagination r)))"
proof -
  let ?data = "\<lparr> prPrefix = Some ''docs'', foldersPage = 1, filesPage = 3, itemsPerPage = 2 \<rparr>"
  have s: "sendList exampleWorld
             (paginatedListCommand exampleWorld (normalizePrefix (prPrefix ?data)))
           = Inr exampleOutput"
    by (simp add: exampleWorld_def)
  have l: "length (allObjects exampleWorld exampleOutput) = 3"
    by (simp add: allObjects_def exampleOutput_def exampleContents_def safeMapObjects_def
        truthy_def sort'_def)
  from listObjectsPaginated_page_flags[OF beyondRequest_parsed s] obtain calls r where
    r: "listObjectsPaginated exampleWorld beyondRequest = (calls, Inr r)"
    and n: "hasNextPage (pgFiles (pagination r))
               = (filesPage ?data < totalPages (pgFiles (pagination r)))"
    and p: "hasPrevPage (pgFiles (pagination r)) = (filesPage ?data > 1)"
    and b: "totalPages (pgFiles (pagination r)) < filesPage ?data
                \<longrightarrow> objects r = [] \<and> \<not> hasNextPage (pgFiles (pagination r))"
    by blast
  from r have t: "totalPages (pgFiles (pagination r)) = 2"
    using l
    by (auto simp: listObjectsPaginated_def createServerFn_def beyondRequest_parsed
        handler_Inr[OF s] paginatedResult_def Let_def ceilDiv_def)
  from r n p b t beyondRequest_parsed s show ?thesis by auto
qed

section \<open>Access to an object\<close>

lemma objectAccessSchema_Inr:
  assumes "objectAccessSchema input = Inr data"
  shows "\<exists>props. input = JObject props \<and> getProp props ''key'' = JString (arKey data)
           \<and> arKey data \<noteq> []
           \<and> parseDisposition (getProp props ''disposition'') = Inr (arDisposition data)"
proof -
  from assms obtain props where input: "input = JObject props"
    by (cases input) (auto simp: objectAccessSchema_def)
  from assms input have k: "parseKey (getProp props ''key'') = Inr (arKey data)"
    and d: "parseDisposition (getProp props ''disposition'') = Inr (arDisposition data)"
    by (auto simp: objectAccessSchema_def Let_def split: sum.splits)
  from k have "getProp props ''key'' = JString (arKey data) \<and> arKey data \<noteq> []"
    by (cases "getProp props ''key''") (auto simp: parseKey_def split: if_splits)
  with input d show ?thesis by blast
qed

lemma objectAccessSchema_ok:
  assumes "getProp props ''key'' = JString k" and "k \<noteq> []"
    and "getProp props ''disposition'' \<in> {JUndefined, JString ''inline'', JString ''attachment''}"
  shows "objectAccessSchema (JObject props)
         = Inr \<lparr> arKey = k,
                 arDisposition = (if getProp props ''disposition'' = JString ''attachment''
                                  then Attachment else Inline) \<rparr>"
  using assms
  by (auto simp: objectAccessSchema_def parseKey_def parseDisposition_def Let_def Suc_le_eq)

text \<open>
  C7. For a request with a non-empty key and a disposition that is absent, \<^verbatim>\<open>inline\<close> or
  \<^verbatim>\<open>attachment\<close>, once the head of the object is fetched the handler asks for a signed URL
  with \<^verbatim>\<open>expiresIn\<close> 300, whatever the request; the command carries the requested
  disposition (\<^verbatim>\<open>inline\<close> when absent) and the content type of the head as response overrides;
  and the grant returns the URL with the metadata of the head.
\<close>

theorem getObjectAccess_signed_url_request:
  assumes "getProp props ''key'' = JString k" and "k \<noteq> []"
    and "getProp props ''disposition'' \<in> {JUndefined, JString ''inline'', JString ''attachment''}"
    and "sendHead w \<lparr> hcBucket = S3_BUCKET w, hcKey = k \<rparr> = Inr head"
    and "getCommand = \<lparr> gcBucket = S3_BUCKET w, gcKey = k,
                         ResponseContentDisposition =
                           Some (if getProp props ''disposition'' = JString ''attachment''
                                 then ''attachment'' else ''inline''),
                         ResponseContentType = ContentType head \<rparr>"
  shows "fst (getObjectAccess w (JObject props))
           = [SendHead \<lparr> hcBucket = S3_BUCKET w, hcKey = k \<rparr>, GetSignedUrl getCommand 300]
         \<and> snd (getObjectAccess w (JObject props))
           = (case getSignedUrl w getCommand 300 of
                Inl e \<Rightarrow> Inl (StorageError e)
              | Inr url \<Rightarrow>
                  Inr \<lparr> accessKey = k, signedUrl = url,
                        contentType = (case ContentType head of
                                         None \<Rightarrow> ''application/octet-stream'' | Some t \<Rightarrow> t),
                        contentLength = (case ContentLength head of None \<Rightarrow> 0 | Some n \<Rightarrow> n),
                        accessLastModified =
                          map_option (toISOString w) (headLastModified head) \<rparr>)"
  using assms(4,5)
  by (auto simp: getObjectAccess_def createServerFn_def objectAccessSchema_ok[OF assms(1-3)]
      getObjectAccessHandler_def Let_def split: sum.splits)

theorem getObjectAccess_signed_url_request_witness:
  "getProp [(''key'', JString ''docs/a'')] ''key'' = JString ''docs/a'' \<and> ''docs/a'' \<noteq> []
   \<and> getProp [(''key'', JString ''docs/a'')] ''disposition''
       \<in> {JUndefined, JString ''inline'', JString ''attachment''}
   \<and> sendHead exampleWorld \<lparr> hcBucket = S3_BUCKET exampleWorld, hcKey = ''docs/a'' \<rparr>
       = Inr \<lparr> ContentType = None, ContentLength = None, headLastModified = None \<rparr>
   \<and> fst (getObjectAccess exampleWorld (JObject [(''key'', JString ''docs/a'')]))
       = [SendHead \<lparr> hcBucket = ''bucket'', hcKey = ''docs/a'' \<rparr>,
          GetSignedUrl \<lparr> gcBucket = ''bucket'', gcKey = ''docs/a'',
                         ResponseContentDisposition = Some ''inline'',
                         ResponseContentType = None \<rparr> 300]
   \<and> snd (getObjectAccess exampleWorld (JObject [(''key'', JString ''docs/a'')]))
       = Inr \<lparr> accessKey = ''docs/a'', signedUrl = ''https://signed.example/docs/a'',
               contentType = ''application/octet-stream'', contentLength = 0,
               accessLastModified = None \<rparr>"
proof -
  let ?props = "[(''key'', JString ''docs/a'')]"
  let ?head = "\<lparr> ContentType = None, ContentLength = None, headLastModified = None \<rparr>"
  have k: "getProp ?props ''key'' = JString ''docs/a''" "''docs/a'' \<noteq> []"
    by (simp_all add: getProp_def)
  have d: "getProp ?props ''disposition'' \<in> {JUndefined, JString ''inline'', JString ''attachment''}"
    by (simp add: getProp_def)
  have h: "sendHead exampleWorld \<lparr> hcBucket = S3_BUCKET exampleWorld, hcKey = ''docs/a'' \<rparr>
       = Inr ?head"
    by (simp add: exampleWorld_def)
  have u: "getProp ?props ''disposition'' = JUndefined" by (simp add: getProp_def)
  have b: "S3_BUCKET exampleWorld = ''bucket''"
    "getSignedUrl exampleWorld c 300 = Inr ''https://signed.example/docs/a''" for c
    by (simp_all add: exampleWorld_def)
  from getObjectAccess_signed_url_request[OF k d h refl] k d h
  show ?thesis unfolding u b by simp
qed

text \<open>
  C10. Every successful call of \<^verbatim>\<open>getObjectAccess\<close> returns the key of the request as it
  was given; a head without content type gives \<^verbatim>\<open>application/octet-stream\<close>, a head without
  content length gives 0, and a head without date gives a grant without \<^verbatim>\<open>lastModified\<close>.
\<close>

theorem getObjectAccess_grant:
  assumes "getObjectAccess w input = (calls, Inr grant)"
  shows "\<exists>props k head.
           input = JObject props \<and> getProp props ''key'' = JString k
           \<and> sendHead w \<lparr> hcBucket = S3_BUCKET w, hcKey = k \<rparr> = Inr head
           \<and> accessKey grant = k
           \<and> contentType grant
               = (if ContentType head = None then ''application/octet-stream''
                  else the (ContentType head))
           \<and> contentLength grant
               = (if ContentLength head = None then 0 else the (ContentLength head))
           \<and> accessLastModified grant
               = (if headLastModified head = None then None
                  else Some (toISOString w (the (headLastModified head))))"
proof -
  from assms obtain data where data: "objectAccessSchema input = Inr data"
    and h: "getObjectAccessHandler w data = (calls, Inr grant)"
    by (auto simp: getObjectAccess_def createServerFn_def split: sum.splits)
  from objectAccessSchema_Inr[OF data] obtain props where
    input: "input = JObject props" and key: "getProp props ''key'' = JString (arKey data)"
    by blast
  from h obtain head where
    head: "sendHead w \<lparr> hcBucket = S3_BUCKET w, hcKey = arKey data \<rparr> = Inr head"
    by (auto simp: getObjectAccessHandler_def Let_def split: sum.splits)
  from h head have "accessKey grant = arKey data"
    and "contentType grant
               = (if ContentType head = None then ''application/octet-stream''
                  else the (ContentType head))"
    and "contentLength grant
               = (if ContentLength head = None then 0 else the (ContentLength head))"
    and "accessLastModified grant
               = (if headLastModified head = None then None
                  else Some (toISOString w (the (headLastModified head))))"
    by (auto simp: getObjectAccessHandler_def Let_def split: sum.splits)
  with input key head show ?thesis by blast
qed

theorem getObjectAccess_grant_witness:
  "getObjectAccess exampleWorld (JObject [(''key'', JString ''docs/a'')])
     = ([SendHead \<lparr> hcBucket = ''bucket'', hcKey = ''docs/a'' \<rparr>,
         GetSignedUrl \<lparr> gcBucket = ''bucket'', gcKey = ''docs/a'',
                        ResponseContentDisposition = Some ''inline'',
                        ResponseContentType = None \<rparr> 300],
        Inr \<lparr> accessKey = ''docs/a'', signedUrl = ''https://signed.example/docs/a'',
              contentType = ''application/octet-stream'', contentLength = 0,
              accessLastModified = None \<rparr>)
   \<and> (\<exists>props k head.
         JObject [(''key'', JString ''docs/a'')] = JObject props
         \<and> getProp props ''key'' = JString k
         \<and> sendHead exampleWorld \<lparr> hcBucket = S3_BUCKET exampleWorld, hcKey = k \<rparr> = Inr head
         \<and> ContentType head = None \<and> ContentLength head = None
         \<and> headLastModified head = None \<and> k = ''docs/a'')"
proof -
  let ?grant = "\<lparr> accessKey = ''docs/a'', signedUrl = ''https://signed.example/docs/a'',
              contentType = ''application/octet-stream'', contentLength = 0,
              accessLastModified = None \<rparr>"
  have h: "getObjectAccess exampleWorld (JObject [(''key'', JString ''docs/a'')])
     = ([SendHead \<lparr> hcBucket = ''bucket'', hcKey = ''docs/a'' \<rparr>,
         GetSignedUrl \<lparr> gcBucket = ''bucket'', gcKey = ''docs/a'',
                        ResponseContentDisposition = Some ''inline'',
                        ResponseContentType = None \<rparr> 300], Inr ?grant)"
    by (simp add: getObjectAccess_def createServerFn_def objectAccessSchema_def getProp_def
        parseKey_def parseDisposition_def getObjectAccessHandler_def exampleWorld_def)
  from getObjectAccess_grant[OF h] obtain props k head where
    p: "JObject [(''key'', JString ''docs/a'')] = JObject props"
    and k: "getProp props ''key'' = JString k"
    and s: "sendHead exampleWorld \<lparr> hcBucket = S3_BUCKET exampleWorld, hcKey = k \<rparr> = Inr head"
    and a: "accessKey ?grant = k"
    by blast
  from s have "ContentType head = None" "ContentLength head = None" "headLastModified head = None"
    by (auto simp: exampleWorld_def)
  with h p k s a show ?thesis by auto
qed

section \<open>Sorting and mapping the entries\<close>

lemma mset_sortInsert: "mset (sortInsert c x xs) = add_mset x (mset xs)"
  by (induction xs) auto

lemma mset_foldl_sortInsert:
  "mset (foldl (\<lambda>run x. sortInsert c x run) acc xs) = mset acc + mset xs"
  by (induction xs arbitrary: acc) (auto simp: mset_sortInsert)

lemma mset_sort': "mset (sort' c xs) = mset xs"
  by (simp add: sort'_def mset_foldl_sortInsert)

lemma set_sort': "set (sort' c xs) = set xs"
  using mset_sort'[of c xs] by (metis set_mset_mset)

lemma set_slice: "set (slice xs s e) \<subseteq> set xs"
proof -
  have "set (take n (drop k xs)) \<subseteq> set xs" for n k
    by (meson set_take_subset set_drop_subset subset_trans)
  then show ?thesis by (simp add: slice_def Let_def)
qed

lemma safeMapObjects_explicit:
  "safeMapObjects toISO (Some objs)
   = concat (map (\<lambda>object.
       case Key object of
         None \<Rightarrow> []
       | Some k \<Rightarrow>
           if k = [] then []
           else [\<lparr> key = k,
                   size' = (case Size object of None \<Rightarrow> 0 | Some n \<Rightarrow> n),
                   lastModified = map_option toISO (LastModified object),
                   etag = ETag object \<rparr>]) objs)"
  by (induction objs) (auto simp: safeMapObjects_def truthy_def split: option.splits)

lemma safeMapObjects_stages:
  "safeMapObjects toISO contents = map (toSummary toISO) (keyedObjects contents)"
  by (simp add: safeMapObjects_def keyedObjects_def toSummary_def)

lemma safeMapObjects_mappedFrom:
  assumes "e \<in> set (safeMapObjects toISO contents)"
  shows "mappedFrom contents e"
proof -
  from assms obtain object where
    o: "object \<in> set (case contents of None \<Rightarrow> [] | Some objs \<Rightarrow> objs)"
    and k: "truthy (Key object)" and e: "e = toSummary toISO object"
    by (auto simp: safeMapObjects_stages keyedObjects_def)
  from k obtain s where s: "Key object = Some s" "s \<noteq> []"
    by (cases "Key object") (auto simp: truthy_def)
  have "Size object = None \<and> size' e = 0 \<or> Size object = Some (size' e)"
    unfolding e by (cases "Size object") (simp_all add: toSummary_def)
  with o s e show ?thesis
    unfolding mappedFrom_def by (auto simp: toSummary_def)
qed

text \<open>
  C9, as the code has it. \<^verbatim>\<open>safeMapObjects\<close> is total: a missing list of contents gives the
  empty list, an entry without key or with an empty key is dropped, every other entry is
  mapped. Every entry of both listings is mapped from an entry of the store: its key is not
  empty, and its size is 0 for a missing size and the size of the store otherwise, so it is
  not negative when no size of the store is.
\<close>

theorem safeMapObjects_total:
  "safeMapObjects toISO None = []
    \<and> safeMapObjects toISO (Some objs)
       = concat (map (\<lambda>object.
           case Key object of
             None \<Rightarrow> []
           | Some k \<Rightarrow>
               if k = [] then []
               else [\<lparr> key = k,
                       size' = (case Size object of None \<Rightarrow> 0 | Some n \<Rightarrow> n),
                       lastModified = map_option toISO (LastModified object),
                       etag = ETag object \<rparr>]) objs)
    \<and> (\<forall>data calls r. listObjectsPaginatedHandler w data = (calls, Inr r)
         \<longrightarrow> (\<exists>response.
                sendList w (paginatedListCommand w (normalizePrefix (prPrefix data)))
                  = Inr response
                \<and> (\<forall>e \<in> set (objects r).
                      mappedFrom (Contents response) e
                      \<and> ((\<forall>object \<in> set (keyedObjects (Contents response)).
                             \<forall>n. Size object = Some n \<longrightarrow> 0 \<le> n)
                         \<longrightarrow> 0 \<le> size' e))))
    \<and> (\<forall>data calls r. listObjectsHandler w data = (calls, Inr r)
         \<longrightarrow> (\<exists>response.
                sendList w (listCommand w data (normalizePrefix (lrPrefix data))) = Inr response
                \<and> (\<forall>e \<in> set (exObjects r).
                      mappedFrom (Contents response) e
                      \<and> ((\<forall>object \<in> set (keyedObjects (Contents response)).
                             \<forall>n. Size object = Some n \<longrightarrow> 0 \<le> n)
                         \<longrightarrow> 0 \<le> size' e))))"
proof -
  have nonneg: "0 \<le> size' e"
    if "e \<in> set (safeMapObjects toISO' contents)"
      and "\<forall>object \<in> set (keyedObjects contents). \<forall>n. Size object = Some n \<longrightarrow> 0 \<le> n"
    for e toISO' contents
    using that
    by (auto simp: safeMapObjects_stages toSummary_def split: option.splits)
  have 1: "safeMapObjects toISO None = []" by (simp add: safeMapObjects_def)
  note 2 = safeMapObjects_explicit[of toISO objs]
  have 3: "\<exists>response.
             sendList w (paginatedListCommand w (normalizePrefix (prPrefix data))) = Inr response
             \<and> (\<forall>e \<in> set (objects r).
                   mappedFrom (Contents response) e
                   \<and> ((\<forall>object \<in> set (keyedObjects (Contents response)).
                          \<forall>n. Size object = Some n \<longrightarrow> 0 \<le> n)
                      \<longrightarrow> 0 \<le> size' e))"
    if h: "listObjectsPaginatedHandler w data = (calls, Inr r)" for data calls r
  proof -
    from h obtain response where
      s: "sendList w (paginatedListCommand w (normalizePrefix (prPrefix data))) = Inr response"
      and r: "r = paginatedResult w data (normalizePrefix (prPrefix data)) response"
      by (auto simp: listObjectsPaginatedHandler_def Let_def split: sum.splits)
    have "e \<in> set (safeMapObjects (toISOString w) (Contents response))"
      if "e \<in> set (objects r)" for e
      using that r set_slice set_sort'
      by (fastforce simp: paginatedResult_def Let_def allObjects_def)
    with s show ?thesis
      using safeMapObjects_mappedFrom nonneg by blast
  qed
  have 4: "\<exists>response.
             sendList w (listCommand w data (normalizePrefix (lrPrefix data))) = Inr response
             \<and> (\<forall>e \<in> set (exObjects r).
                   mappedFrom (Contents response) e
                   \<and> ((\<forall>object \<in> set (keyedObjects (Contents response)).
                          \<forall>n. Size object = Some n \<longrightarrow> 0 \<le> n)
                      \<longrightarrow> 0 \<le> size' e))"
    if h: "listObjectsHandler w data = (calls, Inr r)" for data calls r
  proof -
    from h obtain response where
      s: "sendList w (listCommand w data (normalizePrefix (lrPrefix data))) = Inr response"
      and r: "exObjects r = slice (sort' compareLastModified
                               (safeMapObjects (toISOString w) (Contents response)))
                        0 (limit data)"
      by (auto simp: listObjectsHandler_def Let_def split: sum.splits)
    have "e \<in> set (safeMapObjects (toISOString w) (Contents response))"
      if "e \<in> set (exObjects r)" for e
      using that r set_slice set_sort' by fastforce
    with s show ?thesis
      using safeMapObjects_mappedFrom nonneg by blast
  qed
  from 1 2 3 4 show ?thesis by blast
qed

text \<open>
  C9, as the specification has it, fails for a store that reports a negative size: the size
  is passed through as it is.
\<close>

theorem safeMapObjects_negative_size:
  "listObjectsPaginatedHandler negativeSizeWorld exampleRequest
     = ([SendList (paginatedListCommand negativeSizeWorld ''docs/'')],
        Inr (paginatedResult negativeSizeWorld exampleRequest ''docs/'' negativeSizeOutput))
   \<and> objects (paginatedResult negativeSizeWorld exampleRequest ''docs/'' negativeSizeOutput)
       = [\<lparr> key = ''docs/n'', size' = - 1, lastModified = None, etag = None \<rparr>]
   \<and> size' \<lparr> key = ''docs/n'', size' = - 1, lastModified = None, etag = None \<rparr> < 0"
  by (simp add: listObjectsPaginatedHandler_def paginatedListCommand_def paginatedResult_def
      negativeSizeWorld_def negativeSizeOutput_def exampleWorld_def exampleRequest_def
      normalizePrefix_def truthy_def replaceLeadingSlashes_def endsWithSlash_def
      allObjects_def allFolders_def mapFolders_def safeMapObjects_def sort'_def slice_def
      ceilDiv_def Let_def)

theorem safeMapObjects_total_witness:
  "listObjectsPaginatedHandler exampleWorld exampleRequest
     = ([SendList (paginatedListCommand exampleWorld ''docs/'')],
        Inr (paginatedResult exampleWorld exampleRequest ''docs/'' exampleOutput))
   \<and> safeMapObjects exampleISO None = []
   \<and> list_all (mappedFrom (Contents exampleOutput))
        (objects (paginatedResult exampleWorld exampleRequest ''docs/'' exampleOutput))
   \<and> list_all (\<lambda>e. 0 \<le> size' e)
        (objects (paginatedResult exampleWorld exampleRequest ''docs/'' exampleOutput))"
proof -
  have n: "normalizePrefix (prPrefix exampleRequest) = ''docs/''"
    by (simp add: exampleRequest_def normalizePrefix_def truthy_def replaceLeadingSlashes_def
        endsWithSlash_def)
  have s: "sendList exampleWorld c = Inr exampleOutput" for c
    by (simp add: exampleWorld_def)
  note r = handler_Inr[OF s, of exampleRequest, unfolded n]
  have sizes: "\<forall>object \<in> set (keyedObjects (Contents exampleOutput)).
                \<forall>n. Size object = Some n \<longrightarrow> 0 \<le> n"
    by (simp add: keyedObjects_def exampleOutput_def exampleContents_def truthy_def)
  from safeMapObjects_total[of exampleISO "[]" exampleWorld] r
  obtain response where
    "sendList exampleWorld (paginatedListCommand exampleWorld
        (normalizePrefix (prPrefix exampleRequest))) = Inr response"
    and a: "\<forall>e \<in> set (objects (paginatedResult exampleWorld exampleRequest ''docs/''
                                 exampleOutput)).
              mappedFrom (Contents response) e
              \<and> ((\<forall>object \<in> set (keyedObjects (Contents response)).
                     \<forall>n. Size object = Some n \<longrightarrow> 0 \<le> n)
                 \<longrightarrow> 0 \<le> size' e)"
    and e: "safeMapObjects exampleISO None = []"
    by blast
  then have "response = exampleOutput" by (simp add: s)
  with a sizes e r show ?thesis by (simp add: list_all_iff)
qed

lemma sorted_sortInsert:
  assumes trans: "\<And>a b c. cmp a b < 0 \<Longrightarrow> cmp b c < 0 \<Longrightarrow> cmp a c < 0"
    and asym: "\<And>a b. cmp a b < 0 \<Longrightarrow> \<not> cmp b a < 0"
    and "sorted_wrt (\<lambda>a b. \<not> cmp b a < 0) xs"
  shows "sorted_wrt (\<lambda>a b. \<not> cmp b a < 0) (sortInsert cmp x xs)"
  using assms(3)
proof (induction xs)
  case Nil
  show ?case by simp
next
  case (Cons e es)
  show ?case
  proof (cases "cmp x e < 0")
    case True
    have "\<not> cmp y x < 0" if "y \<in> set (e # es)" for y
    proof (cases "y = e")
      case True
      with \<open>cmp x e < 0\<close> asym show ?thesis by blast
    next
      case False
      with that Cons.prems have "\<not> cmp y e < 0" by auto
      with \<open>cmp x e < 0\<close> trans show ?thesis by blast
    qed
    with True Cons.prems show ?thesis by auto
  next
    case False
    have "set (sortInsert cmp x es) = insert x (set es)"
      using mset_sortInsert[of cmp x es] by (metis set_mset_mset set_mset_add_mset_insert)
    with False Cons show ?thesis by auto
  qed
qed

lemma sorted_sort':
  assumes trans: "\<And>a b c. cmp a b < 0 \<Longrightarrow> cmp b c < 0 \<Longrightarrow> cmp a c < 0"
    and asym: "\<And>a b. cmp a b < 0 \<Longrightarrow> \<not> cmp b a < 0"
  shows "sorted_wrt (\<lambda>a b. \<not> cmp b a < 0) (sort' cmp xs)"
proof -
  have "sorted_wrt (\<lambda>a b. \<not> cmp b a < 0) acc
        \<Longrightarrow> sorted_wrt (\<lambda>a b. \<not> cmp b a < 0) (foldl (\<lambda>run x. sortInsert cmp x run) acc xs)"
    for acc
    by (induction xs arbitrary: acc) (simp_all add: sorted_sortInsert[OF trans asym])
  then show ?thesis by (simp add: sort'_def)
qed

text \<open>An element that the comparator never puts before another goes to the end.\<close>

lemma sortInsert_last:
  assumes "\<And>e. \<not> cmp x e < 0"
  shows "sortInsert cmp x xs = xs @ [x]"
  using assms by (induction xs) auto

lemma filter_sortInsert_other:
  assumes "\<not> P x"
  shows "filter P (sortInsert cmp x xs) = filter P xs"
  using assms by (induction xs) auto

lemma filter_foldl_sortInsert:
  assumes "\<And>x e. P x \<Longrightarrow> \<not> cmp x e < 0"
  shows "filter P (foldl (\<lambda>run x. sortInsert cmp x run) acc xs) = filter P acc @ filter P xs"
proof (induction xs arbitrary: acc)
  case Nil
  show ?case by simp
next
  case (Cons x xs)
  show ?case
  proof (cases "P x")
    case True
    then have "sortInsert cmp x acc = acc @ [x]"
      using assms by (intro sortInsert_last) blast
    with True Cons.IH[of "sortInsert cmp x acc"] show ?thesis by simp
  next
    case False
    with Cons.IH[of "sortInsert cmp x acc"] show ?thesis
      by (simp add: filter_sortInsert_other)
  qed
qed

lemma compareLastModified_neg:
  "compareLastModified a b < 0 \<longleftrightarrow>
     truthy (lastModified a)
     \<and> (\<not> truthy (lastModified b) \<or> js_gt (the (lastModified a)) (the (lastModified b)))"
  by (simp add: compareLastModified_def)

lemma compareLastModified_trans:
  "compareLastModified a b < 0 \<Longrightarrow> compareLastModified b c < 0 \<Longrightarrow> compareLastModified a c < 0"
  unfolding compareLastModified_neg js_gt_def by auto

lemma compareLastModified_asym:
  "compareLastModified a b < 0 \<Longrightarrow> \<not> compareLastModified b a < 0"
  unfolding compareLastModified_neg js_gt_def by auto

lemma sortInsert_map:
  "sortInsert cmp (f x) (map f run) = map f (sortInsert (\<lambda>a b. cmp (f a) (f b)) x run)"
  by (induction run) auto

lemma sort'_map: "sort' cmp (map f xs) = map f (sort' (\<lambda>a b. cmp (f a) (f b)) xs)"
proof -
  have "foldl (\<lambda>run x. sortInsert cmp x run) (map f acc) (map f xs)
        = map f (foldl (\<lambda>run x. sortInsert (\<lambda>a b. cmp (f a) (f b)) x run) acc xs)" for acc
    by (induction xs arbitrary: acc) (simp_all add: sortInsert_map)
  from this[of "[]"] show ?thesis by (simp add: sort'_def)
qed

text \<open>
  C3, as the code has it. The list \<^verbatim>\<open>allObjects\<close> holds the summaries of the entries with a
  key, each once, in an order of those entries. The code compares the ISO strings of the time
  stamps: of two entries with \<^verbatim>\<open>lastModified\<close> the one with the greater string stands before
  the other, so the one with the later time stamp does whenever the strings of the two stand
  in the order of their time values. An entry without \<^verbatim>\<open>lastModified\<close> stands behind every
  entry with one; two entries without are ranked equal, and the entries without keep the
  order of the fetch.
\<close>

theorem allObjects_order:
  "\<exists>raw. allObjects w response = map (toSummary (toISOString w)) raw
     \<and> mset raw = mset (keyedObjects (Contents response))
     \<and> (\<forall>i j. i < length raw \<longrightarrow> j < length raw
           \<longrightarrow> truthy (lastModified (allObjects w response ! i))
           \<longrightarrow> truthy (lastModified (allObjects w response ! j))
           \<longrightarrow> js_gt (the (lastModified (allObjects w response ! i)))
                 (the (lastModified (allObjects w response ! j)))
           \<longrightarrow> i < j)
     \<and> (\<forall>i j di dj. i < length raw \<longrightarrow> j < length raw
           \<longrightarrow> LastModified (raw ! i) = Some di \<longrightarrow> LastModified (raw ! j) = Some dj
           \<longrightarrow> toISOString w di \<noteq> [] \<longrightarrow> toISOString w dj \<noteq> []
           \<longrightarrow> (dj < di) = (toISOString w dj < toISOString w di)
           \<longrightarrow> dj < di
           \<longrightarrow> i < j)
     \<and> (\<forall>i j. i < length raw \<longrightarrow> j < length raw
           \<longrightarrow> \<not> truthy (lastModified (allObjects w response ! i))
           \<longrightarrow> truthy (lastModified (allObjects w response ! j))
           \<longrightarrow> j < i)
     \<and> (\<forall>a b. \<not> truthy (lastModified a) \<longrightarrow> \<not> truthy (lastModified b)
           \<longrightarrow> compareLastModified a b = 0)
     \<and> filter (\<lambda>e. \<not> truthy (lastModified e)) (allObjects w response)
        = filter (\<lambda>e. \<not> truthy (lastModified e))
            (safeMapObjects (toISOString w) (Contents response))"
proof -
  let ?f = "toSummary (toISOString w)"
  let ?cmp = "\<lambda>a b. compareLastModified (?f a) (?f b)"
  define xs where "xs = safeMapObjects (toISOString w) (Contents response)"
  define raw where "raw = sort' ?cmp (keyedObjects (Contents response))"
  define out where "out = allObjects w response"
  have out: "out = sort' compareLastModified xs" by (simp add: out_def xs_def allObjects_def)
  have m: "out = map ?f raw"
    unfolding out xs_def raw_def safeMapObjects_stages by (rule sort'_map)
  have len: "length out = length raw" by (simp add: m)
  have perm: "mset raw = mset (keyedObjects (Contents response))"
    unfolding raw_def by (rule mset_sort')
  have sorted: "sorted_wrt (\<lambda>a b. \<not> compareLastModified b a < 0) out"
    unfolding out by (rule sorted_sort'[OF compareLastModified_trans compareLastModified_asym])
  then have nth: "\<not> compareLastModified (out ! j) (out ! i) < 0"
    if "i < j" "j < length out" for i j
    using that by (simp add: sorted_wrt_iff_nth_less)
  have stable: "filter (\<lambda>e. \<not> truthy (lastModified e)) out
      = filter (\<lambda>e. \<not> truthy (lastModified e)) xs"
    unfolding out sort'_def
    by (simp add: filter_foldl_sortInsert compareLastModified_neg)
  have equal: "\<forall>a b. \<not> truthy (lastModified a) \<longrightarrow> \<not> truthy (lastModified b)
          \<longrightarrow> compareLastModified a b = 0"
    by (simp add: compareLastModified_def)
  have later: "i < j"
    if i: "i < length raw" and j: "j < length raw"
      and ti: "truthy (lastModified (out ! i))" and tj: "truthy (lastModified (out ! j))"
      and gt: "js_gt (the (lastModified (out ! i))) (the (lastModified (out ! j)))" for i j
  proof (rule ccontr)
    from ti gt have c: "compareLastModified (out ! i) (out ! j) < 0"
      by (simp add: compareLastModified_neg)
    assume "\<not> i < j"
    then consider "i = j" | "j < i" by linarith
    then show False
    proof cases
      case 1
      with gt show False by (simp add: js_gt_def)
    next
      case 2
      from nth[OF 2] i len c show False by simp
    qed
  qed
  have dated: "i < j"
    if i: "i < length raw" and j: "j < length raw"
      and di: "LastModified (raw ! i) = Some di" and dj: "LastModified (raw ! j) = Some dj"
      and ni: "toISOString w di \<noteq> []" and nj: "toISOString w dj \<noteq> []"
      and ord: "(dj < di) = (toISOString w dj < toISOString w di)" and lt: "dj < di"
    for i j di dj
  proof -
    have li: "lastModified (out ! i) = Some (toISOString w di)"
      and lj: "lastModified (out ! j) = Some (toISOString w dj)"
      using i j di dj by (simp_all add: m toSummary_def)
    show ?thesis
      using later[OF i j] li lj ni nj ord lt by (simp add: truthy_def js_gt_def)
  qed
  have missing: "j < i"
    if i: "i < length raw" and j: "j < length raw"
      and ti: "\<not> truthy (lastModified (out ! i))" and tj: "truthy (lastModified (out ! j))"
    for i j
  proof (rule ccontr)
    from ti tj have c: "compareLastModified (out ! j) (out ! i) < 0"
      by (simp add: compareLastModified_neg)
    assume "\<not> j < i"
    then consider "i = j" | "i < j" by linarith
    then show False
    proof cases
      case 1
      with ti tj show False by simp
    next
      case 2
      from nth[OF 2] j len c show False by simp
    qed
  qed
  show ?thesis
    apply (rule exI[of _ raw])
    unfolding out_def[symmetric] xs_def[symmetric]
    using m perm later dated missing equal stable by blast
qed

text \<open>
  C3, as the specification has it, fails beyond the year 9999: the string of a time stamp in
  the year 10000 begins with \<^verbatim>\<open>+\<close> and compares below the string of one in 2024, so the later
  of the two entries stands behind the earlier, though the store had it first.
\<close>

theorem allObjects_far_future:
  "(1704067200000 :: js_date) < 253402300800000
   \<and> map LastModified (keyedObjects (Contents farFutureOutput))
       = [Some 253402300800000, Some 1704067200000]
   \<and> allObjects farFutureWorld farFutureOutput
       = [\<lparr> key = ''docs/old'', size' = 1, lastModified = Some ''2024-01-01T00:00:00.000Z'',
            etag = None \<rparr>,
          \<lparr> key = ''docs/far'', size' = 1, lastModified = Some ''+010000-01-01T00:00:00.000Z'',
            etag = None \<rparr>]
   \<and> filesPageOf farFutureWorld exampleRequest 1 = allObjects farFutureWorld farFutureOutput"
  by (simp add: farFutureOutput_def farFutureWorld_def farFutureISO_def exampleWorld_def
      keyedObjects_def allObjects_def safeMapObjects_def truthy_def sort'_def
      compareLastModified_def js_gt_def filesPageOf_def listObjectsPaginatedHandler_def
      paginatedListCommand_def paginatedResult_def exampleRequest_def slice_def Let_def)

lemma exampleAllObjects:
  "allObjects exampleWorld exampleOutput
   = [\<lparr> key = ''docs/b'', size' = 0, lastModified = Some ''2024-03-01T00:00:00.000Z'',
         etag = None \<rparr>,
      \<lparr> key = ''docs/a'', size' = 10, lastModified = Some ''2024-01-01T00:00:00.000Z'',
         etag = None \<rparr>,
      \<lparr> key = ''docs/c'', size' = 30, lastModified = None, etag = None \<rparr>]"
  by (simp add: allObjects_def exampleOutput_def exampleContents_def exampleWorld_def
      exampleISO_def safeMapObjects_def truthy_def sort'_def compareLastModified_def js_gt_def)

theorem allObjects_order_witness:
  "(\<exists>raw. allObjects exampleWorld exampleOutput = map (toSummary (toISOString exampleWorld)) raw
      \<and> mset raw = mset (keyedObjects (Contents exampleOutput)))
   \<and> map key (allObjects exampleWorld exampleOutput) = [''docs/b'', ''docs/a'', ''docs/c'']
   \<and> truthy (lastModified (allObjects exampleWorld exampleOutput ! 0))
   \<and> truthy (lastModified (allObjects exampleWorld exampleOutput ! 1))
   \<and> js_gt (the (lastModified (allObjects exampleWorld exampleOutput ! 0)))
        (the (lastModified (allObjects exampleWorld exampleOutput ! 1)))
   \<and> \<not> truthy (lastModified (allObjects exampleWorld exampleOutput ! 2))
   \<and> toISOString exampleWorld 1709251200000 \<noteq> []
   \<and> toISOString exampleWorld 1704067200000 \<noteq> []
   \<and> ((1704067200000 :: js_date) < 1709251200000)
       = (toISOString exampleWorld 1704067200000 < toISOString exampleWorld 1709251200000)"
proof -
  have e: "map key (allObjects exampleWorld exampleOutput) = [''docs/b'', ''docs/a'', ''docs/c'']
   \<and> truthy (lastModified (allObjects exampleWorld exampleOutput ! 0))
   \<and> truthy (lastModified (allObjects exampleWorld exampleOutput ! 1))
   \<and> js_gt (the (lastModified (allObjects exampleWorld exampleOutput ! 0)))
        (the (lastModified (allObjects exampleWorld exampleOutput ! 1)))
   \<and> \<not> truthy (lastModified (allObjects exampleWorld exampleOutput ! 2))"
    by (simp add: exampleAllObjects truthy_def js_gt_def)
  have i: "toISOString exampleWorld 1709251200000 \<noteq> []
   \<and> toISOString exampleWorld 1704067200000 \<noteq> []
   \<and> ((1704067200000 :: js_date) < 1709251200000)
       = (toISOString exampleWorld 1704067200000 < toISOString exampleWorld 1709251200000)"
    by (simp add: exampleWorld_def exampleISO_def)
  from allObjects_order[of exampleWorld exampleOutput]
  have "\<exists>raw. allObjects exampleWorld exampleOutput
                = map (toSummary (toISOString exampleWorld)) raw
              \<and> mset raw = mset (keyedObjects (Contents exampleOutput))"
    by blast
  with e i show ?thesis by blast
qed

section \<open>Folders\<close>









lemma foldCase_examples: "foldCase CHR ''B'' = CHR ''b''" "foldCase CHR ''a'' = CHR ''a''"
  by (simp_all add: foldCase_def)

lemma letterCollation_examples:
  "letterCollation ''a'' ''B'' = - 1" "letterCollation ''B'' ''a'' = 1"
  by (simp_all add: letterCollation_def foldCase_examples)

lemma exampleRequest_prefix: "normalizePrefix (prPrefix exampleRequest) = ''docs/''"
  by (simp add: exampleRequest_def normalizePrefix_def truthy_def replaceLeadingSlashes_def
      endsWithSlash_def)

text \<open>
  The order is that of the collation, not of the code units: a collation that disregards
  case puts the folder \<^verbatim>\<open>a\<close> before the folder \<^verbatim>\<open>B\<close>, though \<^verbatim>\<open>B\<close> is the smaller string.
\<close>

theorem allFolders_collation_order:
  "storeCommonPrefixes ''docs/'' (CommonPrefixes mixedCaseOutput)
   \<and> plainChildren ''docs/'' (CommonPrefixes mixedCaseOutput)
   \<and> allFolders mixedCaseWorld ''docs/'' mixedCaseOutput
       = [\<lparr> name = ''a'', prefix' = ''docs/a/'' \<rparr>, \<lparr> name = ''B'', prefix' = ''docs/B/'' \<rparr>]
   \<and> foldersPageOf mixedCaseWorld exampleRequest 1
       = allFolders mixedCaseWorld ''docs/'' mixedCaseOutput
   \<and> ''B'' < ''a''"
proof -
  have c: "storeCommonPrefixes ''docs/'' (CommonPrefixes mixedCaseOutput)"
    by (simp add: storeCommonPrefixes_def mixedCaseOutput_def startsWith_def endsWithSlash_def)
  have p: "plainChildren ''docs/'' (CommonPrefixes mixedCaseOutput)"
    by (simp add: plainChildren_def mixedCaseOutput_def)
  have m: "mapFolders ''docs/'' (CommonPrefixes mixedCaseOutput)
       = [\<lparr> name = ''B'', prefix' = ''docs/B/'' \<rparr>, \<lparr> name = ''a'', prefix' = ''docs/a/'' \<rparr>]"
    by (simp add: mapFolders_def mixedCaseOutput_def startsWith_def endsWithSlash_def
        replaceTrailingSlash_def)
  have l: "localeCompare mixedCaseWorld = letterCollation"
    by (simp add: mixedCaseWorld_def)
  have a: "allFolders mixedCaseWorld ''docs/'' mixedCaseOutput
       = [\<lparr> name = ''a'', prefix' = ''docs/a/'' \<rparr>, \<lparr> name = ''B'', prefix' = ''docs/B/'' \<rparr>]"
    by (simp add: allFolders_def m l sort'_def letterCollation_examples)
  have s: "sendList mixedCaseWorld
             (paginatedListCommand mixedCaseWorld (normalizePrefix (prPrefix exampleRequest)))
           = Inr mixedCaseOutput"
    by (simp add: mixedCaseWorld_def)
  have i: "itemsPerPage exampleRequest = 2" by (simp add: exampleRequest_def)
  have f: "foldersPageOf mixedCaseWorld exampleRequest 1
       = allFolders mixedCaseWorld ''docs/'' mixedCaseOutput"
    unfolding foldersPageOf_slice[OF s] exampleRequest_prefix i a
    by (simp add: slice_def)
  have o: "''B'' < ''a''" by simp
  from c p a f o show ?thesis by simp
qed

text \<open>
  A child named like the queried prefix: under \<^verbatim>\<open>a/\<close> the guard \<^verbatim>\<open>name !== prefix\<close> compares
  the remainder \<^verbatim>\<open>a/\<close> of the folder \<^verbatim>\<open>a/a/\<close> with the prefix and discards the folder, which
  the specification keeps.
\<close>

lemma allFolders_child_named_like_prefix:
  "normalizePrefix (Some ''a'') = ''a/''
   \<and> storeCommonPrefixes ''a/'' (CommonPrefixes sameNameOutput)
   \<and> allFolders exampleWorld ''a/'' sameNameOutput = [\<lparr> name = ''b'', prefix' = ''a/b/'' \<rparr>]
   \<and> specFolders ''a/'' (CommonPrefixes sameNameOutput)
       = [\<lparr> name = ''a'', prefix' = ''a/a/'' \<rparr>, \<lparr> name = ''b'', prefix' = ''a/b/'' \<rparr>]"
  by (simp add: storeCommonPrefixes_def sameNameOutput_def startsWith_def endsWithSlash_def
      allFolders_def mapFolders_def specFolders_def sort'_def replaceTrailingSlash_def
      normalizePrefix_def truthy_def replaceLeadingSlashes_def Let_def)


section \<open>The last selection wins\<close>

lemma hookInv_mount: "hookInv mount"
  by (simp add: hookInv_def mount_def)

lemma runCleanup_props:
  assumes "hookInv h"
  shows "cleanup (runCleanup h) = None"
    and "length (runs (runCleanup h)) = length (runs h)"
    and "\<forall>j < length (runs h). aborted (runs (runCleanup h) ! j)"
    and "state (runCleanup h) = state h" and "deps (runCleanup h) = deps h"
proof -
  show "cleanup (runCleanup h) = None" "length (runs (runCleanup h)) = length (runs h)"
    "state (runCleanup h) = state h" "deps (runCleanup h) = deps h"
    by (simp_all add: runCleanup_def split: option.splits)
  show "\<forall>j < length (runs h). aborted (runs (runCleanup h) ! j)"
  proof (intro allI impI)
    fix j assume j: "j < length (runs h)"
    show "aborted (runs (runCleanup h) ! j)"
    proof (cases "cleanup h")
      case None
      with assms j show ?thesis by (simp add: runCleanup_def hookInv_def)
    next
      case (Some i)
      with assms j show ?thesis
        by (cases "i = j") (auto simp: runCleanup_def hookInv_def)
    qed
  qed
qed

lemma truthy_the: "truthy k \<Longrightarrow> k = Some (the k)"
  by (cases k) (simp_all add: truthy_def)

lemma hookInv_useEffect:
  assumes "hookInv h"
  shows "hookInv (useEffect h k d)"
proof (cases "deps h = Some (k, d)")
  case True
  with assms show ?thesis by (simp add: useEffect_def)
next
  case False
  note c = runCleanup_props[OF assms]
  show ?thesis
  proof (cases "truthy k")
    case nk: False
    with False c show ?thesis
      by (simp add: useEffect_def Let_def hookInv_def correspondsTo_def)
  next
    case tk: True
    have "stateKey (Loading (the k)) = k"
      using truthy_the[OF tk] by (simp add: stateKey_def)
    with False tk c show ?thesis
      by (auto simp: useEffect_def Let_def hookInv_def correspondsTo_def nth_append)
  qed
qed

lemma hookInv_settle:
  assumes "hookInv h"
  shows "hookInv (settle h i result)"
proof (cases "i < length (runs h) \<and> \<not> settled (runs h ! i)")
  case False
  with assms show ?thesis by (auto simp: settle_def)
next
  case True
  let ?run = "runs h ! i"
  let ?h1 = "h\<lparr> runs := (runs h)[i := ?run\<lparr> settled := True \<rparr>] \<rparr>"
  have r: "runKey (runs ?h1 ! j) = runKey (runs h ! j)"
    "aborted (runs ?h1 ! j) = aborted (runs h ! j)" if "j < length (runs h)" for j
    using that True by (simp_all add: nth_list_update)
  have h1: "hookInv ?h1"
    using assms r unfolding hookInv_def by (auto split: if_splits)
  show ?thesis
  proof (cases "aborted ?run")
    case a: True
    with True h1 show ?thesis by (simp add: settle_def Let_def)
  next
    case na: False
    with assms True have cl: "cleanup h = Some i" by (auto simp: hookInv_def)
    with assms obtain k d where dp: "deps h = Some (k, d)"
      by (cases "deps h") (auto simp: hookInv_def)
    with assms cl have tk: "truthy k" and rk: "runKey ?run = the k"
      by (auto simp: hookInv_def split: if_splits)
    have sk: "stateKey (Success (runKey ?run) data) = k"
      "stateKey (Error (runKey ?run) m) = k" for data m
      using truthy_the[OF tk] rk by (simp_all add: stateKey_def)
    from h1 dp tk sk have "hookInv (?h1\<lparr> state := s \<rparr>)"
      if "stateKey s = k" for s
      using that unfolding hookInv_def correspondsTo_def by auto
    with True na sk show ?thesis
      by (cases result) (simp_all add: settle_def Let_def)
  qed
qed

lemma hookInv_step: "hookInv h \<Longrightarrow> hookInv (step h e)"
  by (cases e) (simp_all add: hookInv_useEffect hookInv_settle)

lemma hookInv_foldl: "hookInv h \<Longrightarrow> hookInv (foldl step h events)"
  by (induction events arbitrary: h) (simp_all add: hookInv_step)

lemma hookInv_corresponds: "hookInv h \<Longrightarrow> correspondsTo (state h) (selectionOf h)"
  by (cases "deps h") (auto simp: hookInv_def selectionOf_def correspondsTo_def truthy_def)

lemma selectionOf_step:
  "selectionOf (step h e) = (case e of Render k d \<Rightarrow> k | Settle i r \<Rightarrow> selectionOf h)"
  by (cases e)
    (auto simp: selectionOf_def useEffect_def settle_def runCleanup_def Let_def
      split: option.splits outcome.splits)

lemma selectionOf_foldl:
  "selectionOf (foldl step h events) = selectedKey (selectionOf h) events"
proof (induction events arbitrary: h)
  case Nil
  show ?case by simp
next
  case (Cons e events)
  show ?case
    by (cases e) (simp_all add: Cons.IH selectionOf_step del: step.simps)
qed

text \<open>
  C5. After any sequence of renders and settled fetches the state of the hook belongs to the
  key of the last render. The promise of any run but the one of the last render changes
  nothing when it settles, with a result or with an error; the one run that can still change
  the state is the run of the selected key.
\<close>

theorem useObjectAccess_last_selection:
  "correspondsTo (state (useObjectAccess events)) (selectedKey None events)
   \<and> (\<forall>i result. cleanup (useObjectAccess events) \<noteq> Some i
         \<longrightarrow> state (step (useObjectAccess events) (Settle i result))
             = state (useObjectAccess events))
   \<and> (\<forall>i. cleanup (useObjectAccess events) = Some i
         \<longrightarrow> Some (runKey (runs (useObjectAccess events) ! i)) = selectedKey None events)"
proof -
  let ?h = "useObjectAccess events"
  have inv: "hookInv ?h"
    unfolding useObjectAccess_def by (rule hookInv_foldl[OF hookInv_mount])
  have sel: "selectionOf ?h = selectedKey None events"
    unfolding useObjectAccess_def
    by (simp add: selectionOf_foldl) (simp add: selectionOf_def mount_def)
  have 1: "correspondsTo (state ?h) (selectedKey None events)"
    using hookInv_corresponds[OF inv] sel by simp
  have 2: "state (step ?h (Settle i result)) = state ?h" if "cleanup ?h \<noteq> Some i" for i result
    using inv that by (auto simp: settle_def Let_def hookInv_def split: outcome.splits)
  have 3: "Some (runKey (runs ?h ! i)) = selectedKey None events" if "cleanup ?h = Some i" for i
  proof -
    from inv that obtain k d where dp: "deps ?h = Some (k, d)"
      by (cases "deps ?h") (auto simp: hookInv_def)
    with inv that have "truthy k" "runKey (runs ?h ! i) = the k"
      by (auto simp: hookInv_def split: if_splits)
    with truthy_the[of k] dp sel show ?thesis by (simp add: selectionOf_def)
  qed
  from 1 2 3 show ?thesis by blast
qed

lemma staleHook:
  "useObjectAccess staleEvents
   = \<lparr> state = Loading ''B'', deps = Some (Some ''B'', Inline),
       runs = [\<lparr> runKey = ''A'', aborted = True, settled = False \<rparr>,
               \<lparr> runKey = ''B'', aborted = False, settled = False \<rparr>],
       cleanup = Some 1 \<rparr>"
  by (simp add: useObjectAccess_def staleEvents_def mount_def useEffect_def runCleanup_def
      truthy_def Let_def)

theorem useObjectAccess_last_selection_witness:
  "selectedKey None staleEvents = Some ''B''
   \<and> state (useObjectAccess staleEvents) = Loading ''B''
   \<and> cleanup (useObjectAccess staleEvents) \<noteq> Some 0
   \<and> state (step (useObjectAccess staleEvents) (Settle 0 (Resolved grantA))) = Loading ''B''
   \<and> correspondsTo (state (useObjectAccess (staleEvents @ [Settle 0 (Resolved grantA)])))
        (Some ''B'')"
proof -
  have s: "selectedKey None staleEvents = Some ''B''"
    "selectedKey None (staleEvents @ [Settle 0 (Resolved grantA)]) = Some ''B''"
    by (simp_all add: staleEvents_def)
  have c: "cleanup (useObjectAccess staleEvents) \<noteq> Some 0"
    and l: "state (useObjectAccess staleEvents) = Loading ''B''"
    by (simp_all add: staleHook)
  from useObjectAccess_last_selection[of staleEvents] c
  have "state (step (useObjectAccess staleEvents) (Settle 0 (Resolved grantA)))
        = state (useObjectAccess staleEvents)"
    by blast
  moreover from useObjectAccess_last_selection[of "staleEvents @ [Settle 0 (Resolved grantA)]"]
  have "correspondsTo (state (useObjectAccess (staleEvents @ [Settle 0 (Resolved grantA)])))
        (Some ''B'')"
    unfolding s by blast
  ultimately show ?thesis using s c l by simp
qed

end
